theory Spec2Isabelle
  imports Main "HOL-Library.Word"
begin

section \<open>UniTracker: the pin screen and its local persistence\<close>

text \<open>
  The repository holds three copies of one React screen (\<open>Home\<close>):
  \<^item> the first document of \<^verbatim>\<open>src/client/src/pages/Home.tsx\<close> (lines 1-353), called
    \<open>Minimal\<close> below;
  \<^item> the second document of the same file (lines 354-769), called \<open>Soft\<close>;
  \<^item> \<^verbatim>\<open>src/unnamed/part_001\<close>, called \<open>Cyber\<close>.
  Each one keeps its data in \<open>useState\<close> cells and changes them in event handlers.
  A handler is modelled as a function from the cells before the event to the cells
  after it; the toasts it raises are appended to a log kept in the same record.
\<close>

datatype variant = Minimal | Soft | Cyber

subsection \<open>Strings\<close>

text \<open>
  A JavaScript string is a sequence of 16-bit code units. \<open>js\<close> writes an ASCII
  literal as such a sequence.
\<close>

type_synonym jsstring = "16 word list"

definition js :: "string \<Rightarrow> jsstring" where
  "js s = map of_char s"

text \<open>
  \<^verbatim>\<open>String.prototype.trim\<close> removes leading and trailing code units that are
  WhiteSpace or LineTerminator in ECMA-262: TAB, LF, VT, FF, CR, SP, NBSP, U+1680,
  U+2000 to U+200A, U+2028, U+2029, U+202F, U+205F, U+3000 and U+FEFF.
\<close>

definition isWhiteSpace :: "16 word \<Rightarrow> bool" where
  "isWhiteSpace c \<longleftrightarrow>
     c = 0x09 \<or> c = 0x0A \<or> c = 0x0B \<or> c = 0x0C \<or> c = 0x0D \<or> c = 0x20 \<or> c = 0xA0 \<or>
     c = 0x1680 \<or> (0x2000 \<le> c \<and> c \<le> 0x200A) \<or> c = 0x2028 \<or> c = 0x2029 \<or>
     c = 0x202F \<or> c = 0x205F \<or> c = 0x3000 \<or> c = 0xFEFF"

definition trim :: "jsstring \<Rightarrow> jsstring" where
  "trim s = rev (dropWhile isWhiteSpace (rev (dropWhile isWhiteSpace s)))"

subsection \<open>Numbers\<close>

text \<open>
  The numbers of the program (latitude, longitude, \<^verbatim>\<open>Date.now()\<close>) are finite
  doubles. The program never computes with them: it stores them, prints them and reads
  them back. A finite double is identified here with the decimal that
  \<^verbatim>\<open>Number::toString\<close> prints for it, \<open>Num m e\<close> standing for \<open>m * 10 ^ e\<close>;
  NaN, the infinities and the sign of zero are outside the model.
\<close>

datatype number = Num int int

text \<open>The decimal digits of a natural number, most significant first.\<close>

fun digits :: "nat \<Rightarrow> nat list" where
  "digits n = (if n < 10 then [n] else digits (n div 10) @ [n mod 10])"

declare digits.simps [simp del]

definition digit_char :: "nat \<Rightarrow> 16 word" where
  "digit_char d = of_nat (48 + d)"

definition digit_chars :: "nat list \<Rightarrow> jsstring" where
  "digit_chars ds = map digit_char ds"

text \<open>
  \<^verbatim>\<open>Number::toString\<close> of ECMA-262 in radix 10, which is also what
  \<^verbatim>\<open>JSON.stringify\<close> writes for a finite number. With \<open>k\<close> digits \<open>ds\<close> of the coefficient
  and \<open>n = e + k\<close> the position of the decimal point: plain digits and zeros when
  \<open>k \<le> n \<le> 21\<close>, a point inside the digits when \<open>0 < n < k\<close>, \<open>0.00ddd\<close> when
  \<open>-6 < n \<le> 0\<close>, exponent notation otherwise.
\<close>

definition unsigned_toString :: "nat \<Rightarrow> int \<Rightarrow> jsstring" where
  "unsigned_toString c e =
     (let ds = digits c; k = int (length ds); n = e + k in
      if k \<le> n \<and> n \<le> 21 then digit_chars ds @ replicate (nat (n - k)) 0x30
      else if 0 < n \<and> n \<le> 21 then
        digit_chars (take (nat n) ds) @ [0x2E] @ digit_chars (drop (nat n) ds)
      else if - 6 < n \<and> n \<le> 0 then
        [0x30, 0x2E] @ replicate (nat (- n)) 0x30 @ digit_chars ds
      else
        (if length ds = 1 then digit_chars ds
         else digit_chars [hd ds] @ [0x2E] @ digit_chars (tl ds))
        @ [0x65] @ [if 0 \<le> n - 1 then 0x2B else 0x2D] @ digit_chars (digits (nat \<bar>n - 1\<bar>)))"

fun Number_toString :: "number \<Rightarrow> jsstring" where
  "Number_toString (Num m e) =
     (if m = 0 then [0x30]
      else (if m < 0 then [0x2D] else []) @ unsigned_toString (nat \<bar>m\<bar>) e)"

declare Number_toString.simps [simp del]

subsection \<open>Data of the screen\<close>

text \<open>\<^verbatim>\<open>interface Pin\<close>; the field \<^verbatim>\<open>id\<close> is called \<open>pin_id\<close> (\<open>id\<close> is the identity of HOL).\<close>

record Pin =
  pin_id :: jsstring
  lat :: number
  lng :: number
  title :: jsstring
  description :: jsstring
  timestamp :: number

text \<open>\<^verbatim>\<open>L.LatLng\<close> and \<^verbatim>\<open>L.LatLngTuple\<close>: a latitude and a longitude.\<close>

type_synonym latlng = "number \<times> number"

text \<open>
  A call \<^verbatim>\<open>toast({ title, description, variant })\<close>. Titles are kept as ASCII text (two
  titles of the source end in an emoji, left out here); \<open>destructive\<close> is
  \<^verbatim>\<open>variant: "destructive"\<close>, the error style.
\<close>

record toast =
  toast_title :: string
  toast_description :: "string option"
  destructive :: bool

definition notice :: "string \<Rightarrow> toast" where
  "notice t = \<lparr>toast_title = t, toast_description = None, destructive = False\<rparr>"

definition failure :: "string \<Rightarrow> toast" where
  "failure t = \<lparr>toast_title = t, toast_description = None, destructive = True\<rparr>"

text \<open>The \<open>useState\<close> cells of \<open>Home\<close>, and the toasts raised so far.\<close>

record state =
  pins :: "Pin list"
  userLocation :: "latlng option"
  isSidebarOpen :: bool
  isAddingPin :: bool
  selectedLocation :: "latlng option"
  isLocating :: bool
  pinTitle :: jsstring
  pinDesc :: jsstring
  toasts :: "toast list"

definition initial :: state where
  "initial = \<lparr>pins = [], userLocation = None, isSidebarOpen = False, isAddingPin = False,
     selectedLocation = None, isLocating = False, pinTitle = [], pinDesc = [], toasts = []\<rparr>"

definition raise_toast :: "toast \<Rightarrow> state \<Rightarrow> state" where
  "raise_toast t s = s\<lparr>toasts := toasts s @ [t]\<rparr>"

subsection \<open>Handlers of the add flow\<close>

text \<open>\<^verbatim>\<open>handleMapClick\<close>, the same in the three screens.\<close>

definition handleMapClick :: "latlng \<Rightarrow> state \<Rightarrow> state" where
  "handleMapClick latlng s =
     (if isAddingPin s then s\<lparr>selectedLocation := Some latlng, isSidebarOpen := True\<rparr> else s)"

text \<open>The \<^verbatim>\<open>onClick\<close> of the add-pin button (\<^verbatim>\<open>button-add-pin\<close>).\<close>

fun add_mode_hint :: "variant \<Rightarrow> toast" where
  "add_mode_hint Minimal = notice ''Tap anywhere on the map to drop a pin''"
| "add_mode_hint Soft = notice ''Tap map to drop pin''"
| "add_mode_hint Cyber = (notice ''Input Mode Active'')
     \<lparr>toast_description := Some ''Select coordinates on map view''\<rparr>"

definition toggleAddMode :: "variant \<Rightarrow> state \<Rightarrow> state" where
  "toggleAddMode v s =
     (if \<not> isAddingPin s then raise_toast (add_mode_hint v) (s\<lparr>isAddingPin := True\<rparr>)
      else s\<lparr>isAddingPin := False, selectedLocation := None\<rparr>)"

text \<open>
  \<^verbatim>\<open>savePin\<close>. \<^verbatim>\<open>Date.now()\<close> is read twice, for the id and for the timestamp; the
  two readings are the arguments \<open>now_id\<close> and \<open>now_ts\<close>. \<open>Minimal\<close> puts the new pin
  last (\<^verbatim>\<open>[...pins, newPin]\<close>), the other two put it first (\<^verbatim>\<open>[newPin, ...pins]\<close>).
\<close>

fun title_required :: "variant \<Rightarrow> toast" where
  "title_required Minimal = failure ''Please enter a title''"
| "title_required Soft = failure ''Give it a name!''"
| "title_required Cyber = (failure ''Input Required'')
     \<lparr>toast_description := Some ''Please name this spot.''\<rparr>"

fun pin_saved :: "variant \<Rightarrow> toast" where
  "pin_saved Minimal = notice ''Location pinned successfully!''"
| "pin_saved Soft = notice ''Spot saved! ''"
| "pin_saved Cyber = (notice ''Spot Encoded '')
     \<lparr>toast_description := Some ''Saved to local datastream''\<rparr>"

definition newPin :: "number \<Rightarrow> number \<Rightarrow> latlng \<Rightarrow> state \<Rightarrow> Pin" where
  "newPin now_id now_ts loc s =
     \<lparr>pin_id = Number_toString now_id, lat = fst loc, lng = snd loc,
      title = pinTitle s, description = pinDesc s, timestamp = now_ts\<rparr>"

fun with_new :: "variant \<Rightarrow> Pin \<Rightarrow> Pin list \<Rightarrow> Pin list" where
  "with_new Minimal p ps = ps @ [p]"
| "with_new Soft p ps = p # ps"
| "with_new Cyber p ps = p # ps"

definition savePin :: "variant \<Rightarrow> number \<Rightarrow> number \<Rightarrow> state \<Rightarrow> state" where
  "savePin v now_id now_ts s =
     (case selectedLocation s of
        None \<Rightarrow> s
      | Some loc \<Rightarrow>
          if trim (pinTitle s) = [] then raise_toast (title_required v) s
          else raise_toast (pin_saved v)
                 (s\<lparr>pins := with_new v (newPin now_id now_ts loc s) (pins s),
                    pinTitle := [], pinDesc := [],
                    selectedLocation := None, isAddingPin := False\<rparr>))"

text \<open>
  The Cancel button of the form: \<open>Minimal\<close> clears the pending location and leaves
  add mode, \<open>Soft\<close> clears the pending location only, \<open>Cyber\<close> has no such button
  (\<open>None\<close>).
\<close>

fun cancel :: "variant \<Rightarrow> state \<Rightarrow> state option" where
  "cancel Minimal s = Some (s\<lparr>selectedLocation := None, isAddingPin := False\<rparr>)"
| "cancel Soft s = Some (s\<lparr>selectedLocation := None\<rparr>)"
| "cancel Cyber s = None"

text \<open>\<^verbatim>\<open>deletePin\<close>.\<close>

fun pin_removed :: "variant \<Rightarrow> toast" where
  "pin_removed Minimal = notice ''Pin removed''"
| "pin_removed Soft = notice ''Pin removed''"
| "pin_removed Cyber = notice ''Pin Purged''"

definition deletePin :: "variant \<Rightarrow> jsstring \<Rightarrow> state \<Rightarrow> state" where
  "deletePin v i s =
     raise_toast (pin_removed v) (s\<lparr>pins := filter (\<lambda>p. pin_id p \<noteq> i) (pins s)\<rparr>)"

text \<open>
  \<^verbatim>\<open>flyToPin\<close>, called with the coordinate of the pin clicked in the list. The map is
  centred by \<^verbatim>\<open>MapController center={userLocation}\<close>, so the handler writes the pin's
  coordinate into \<open>userLocation\<close>. \<open>innerWidth\<close> is \<^verbatim>\<open>window.innerWidth\<close>, in pixels.
\<close>

definition flyToPin :: "variant \<Rightarrow> number \<Rightarrow> number \<Rightarrow> int \<Rightarrow> state \<Rightarrow> state" where
  "flyToPin v la ln innerWidth s =
     (case v of
        Minimal \<Rightarrow> s\<lparr>userLocation := Some (la, ln), isSidebarOpen := False\<rparr>
      | _ \<Rightarrow> (if innerWidth < 640
              then s\<lparr>userLocation := Some (la, ln), isSidebarOpen := False\<rparr>
              else s\<lparr>userLocation := Some (la, ln)\<rparr>))"

text \<open>
  \<^verbatim>\<open>handleQuickPin\<close> of \<open>Cyber\<close>: the pending location is taken from \<open>userLocation\<close>.
\<close>

definition handleQuickPin_Cyber :: "state \<Rightarrow> state" where
  "handleQuickPin_Cyber s =
     (case userLocation s of
        None \<Rightarrow> raise_toast (failure ''Waiting for GPS...'') s
      | Some u \<Rightarrow>
          raise_toast (notice ''Capturing Coordinates...'')
            (s\<lparr>selectedLocation := Some u, isSidebarOpen := True, isAddingPin := False\<rparr>))"

text \<open>
  \<^verbatim>\<open>handleQuickPin\<close> of \<open>Soft\<close> asks the platform for one position. The click itself
  (\<open>supported\<close> says whether \<^verbatim>\<open>navigator.geolocation\<close> exists) only raises a toast; the
  platform later calls the success callback with a position or the error callback.
\<close>

definition handleQuickPin_Soft :: "bool \<Rightarrow> state \<Rightarrow> state" where
  "handleQuickPin_Soft supported s =
     (if \<not> supported then raise_toast (failure ''Geolocation not supported'') s
      else raise_toast (notice ''Capturing current spot...'') s)"

definition quickPin_success :: "latlng \<Rightarrow> state \<Rightarrow> state" where
  "quickPin_success coords s =
     s\<lparr>selectedLocation := Some coords, userLocation := Some coords,
       isSidebarOpen := True, isAddingPin := False\<rparr>"

definition quickPin_error :: "state \<Rightarrow> state" where
  "quickPin_error s = raise_toast (failure ''Could not get current location'') s"

subsection \<open>Sidebar and geolocation handlers\<close>

text \<open>
  The list button toggles the drawer in \<open>Minimal\<close> and \<open>Soft\<close> and opens it in
  \<open>Cyber\<close>; the X of the drawer (and the backdrop of \<open>Cyber\<close>) closes it.
\<close>

definition listButton :: "variant \<Rightarrow> state \<Rightarrow> state" where
  "listButton v s =
     (case v of Cyber \<Rightarrow> s\<lparr>isSidebarOpen := True\<rparr>
      | _ \<Rightarrow> s\<lparr>isSidebarOpen := \<not> isSidebarOpen s\<rparr>)"

definition closeSidebar :: "state \<Rightarrow> state" where
  "closeSidebar s = s\<lparr>isSidebarOpen := False\<rparr>"

text \<open>
  The navigation button: \<^verbatim>\<open>handleLocateMe\<close> in \<open>Minimal\<close> and \<open>Soft\<close> (with its two
  callbacks), a recentring on the stored position in \<open>Cyber\<close>.
\<close>

definition handleLocateMe :: "variant \<Rightarrow> bool \<Rightarrow> state \<Rightarrow> state" where
  "handleLocateMe v supported s =
     (case v of
        Minimal \<Rightarrow>
          if \<not> supported
          then raise_toast (failure ''Geolocation is not supported by your browser.'') s
          else raise_toast (notice ''Locating you...'') s
      | Soft \<Rightarrow>
          if \<not> supported then raise_toast (failure ''Geolocation not supported'') s
          else s\<lparr>isLocating := True\<rparr>
      | Cyber \<Rightarrow>
          (case userLocation s of
             None \<Rightarrow> s
           | Some u \<Rightarrow>
               raise_toast ((notice ''Recalibrating...'')
                              \<lparr>toast_description := Some ''Re-centering system view''\<rparr>)
                 (s\<lparr>userLocation := Some u\<rparr>)))"

definition locate_success :: "variant \<Rightarrow> latlng \<Rightarrow> state \<Rightarrow> state" where
  "locate_success v pos s =
     (case v of
        Minimal \<Rightarrow> s\<lparr>userLocation := Some pos\<rparr>
      | _ \<Rightarrow> s\<lparr>userLocation := Some pos, isLocating := False\<rparr>)"

definition locate_error :: "variant \<Rightarrow> state \<Rightarrow> state" where
  "locate_error v s =
     (case v of
        Minimal \<Rightarrow> raise_toast (failure ''Unable to retrieve your location.'') s
      | _ \<Rightarrow> raise_toast (failure ''Position unavailable'') (s\<lparr>isLocating := False\<rparr>))"

text \<open>
  The position requests made on mount: none in \<open>Minimal\<close>, one fetch in \<open>Soft\<close>, one
  fetch and a continuous watch in \<open>Cyber\<close> (\<open>watch_update\<close> is the watch's callback).
  \<open>mount_tracking\<close> is the synchronous part of the effect, \<open>mount_success\<close> and
  \<open>mount_error\<close> are the callbacks of the fetch.
\<close>

definition mount_tracking :: "variant \<Rightarrow> bool \<Rightarrow> state \<Rightarrow> state" where
  "mount_tracking v supported s =
     (case v of
        Cyber \<Rightarrow>
          if \<not> supported then raise_toast (failure ''GPS Not Supported'') s
          else s\<lparr>isLocating := True\<rparr>
      | _ \<Rightarrow> s)"

definition mount_success :: "variant \<Rightarrow> latlng \<Rightarrow> state \<Rightarrow> state" where
  "mount_success v pos s =
     (case v of
        Minimal \<Rightarrow> s
      | Soft \<Rightarrow> raise_toast (notice ''Found your location! '') (s\<lparr>userLocation := Some pos\<rparr>)
      | Cyber \<Rightarrow>
          raise_toast ((notice ''System Online'')
                         \<lparr>toast_description := Some ''GPS Lock Established''\<rparr>)
            (s\<lparr>userLocation := Some pos, isLocating := False\<rparr>))"

definition mount_error :: "variant \<Rightarrow> state \<Rightarrow> state" where
  "mount_error v s =
     (case v of
        Cyber \<Rightarrow>
          raise_toast ((failure ''GPS Connection Failed'')
                         \<lparr>toast_description :=
                            Some ''Please enable location services in your browser settings.''\<rparr>)
            (s\<lparr>isLocating := False\<rparr>)
      | _ \<Rightarrow> s)"

definition watch_update :: "latlng \<Rightarrow> state \<Rightarrow> state" where
  "watch_update pos s = s\<lparr>userLocation := Some pos\<rparr>"

subsection \<open>Events\<close>

text \<open>
  What can happen to a mounted screen: the user's actions and the platform's
  geolocation callbacks. \<open>step\<close> runs the handler of an event; it is \<open>None\<close> when the
  screen has no such control. A pin can be selected when its card is on screen, that
  is when the drawer is open and shows the list (no pending location).
  \<open>delivers_position\<close> marks the events in which the platform hands over a device
  position.
\<close>

datatype event =
    ListButton
  | CloseSidebar
  | LocateMe bool
  | LocateSuccess latlng
  | LocateError
  | Mount bool
  | MountSuccess latlng
  | MountError
  | WatchUpdate latlng
  | ToggleAddMode
  | MapClick latlng
  | TypeTitle jsstring
  | TypeDesc jsstring
  | SavePin number number
  | Cancel
  | DeletePin jsstring
  | SelectPin Pin int
  | QuickPin bool
  | QuickPinSuccess latlng
  | QuickPinError

fun step :: "variant \<Rightarrow> event \<Rightarrow> state \<Rightarrow> state option" where
  "step v ListButton s = Some (listButton v s)"
| "step v CloseSidebar s = Some (closeSidebar s)"
| "step v (LocateMe supported) s = Some (handleLocateMe v supported s)"
| "step v (LocateSuccess pos) s = (if v = Cyber then None else Some (locate_success v pos s))"
| "step v LocateError s = (if v = Cyber then None else Some (locate_error v s))"
| "step v (Mount supported) s = Some (mount_tracking v supported s)"
| "step v (MountSuccess pos) s = (if v = Minimal then None else Some (mount_success v pos s))"
| "step v MountError s = (if v = Minimal then None else Some (mount_error v s))"
| "step v (WatchUpdate pos) s = (if v = Cyber then Some (watch_update pos s) else None)"
| "step v ToggleAddMode s = Some (toggleAddMode v s)"
| "step v (MapClick latlng) s = Some (handleMapClick latlng s)"
| "step v (TypeTitle t) s = Some (s\<lparr>pinTitle := t\<rparr>)"
| "step v (TypeDesc d) s = Some (s\<lparr>pinDesc := d\<rparr>)"
| "step v (SavePin now_id now_ts) s = Some (savePin v now_id now_ts s)"
| "step v Cancel s = cancel v s"
| "step v (DeletePin i) s = Some (deletePin v i s)"
| "step v (SelectPin p innerWidth) s =
     (if p \<in> set (pins s) \<and> selectedLocation s = None \<and> isSidebarOpen s
      then Some (flyToPin v (lat p) (lng p) innerWidth s) else None)"
| "step v (QuickPin supported) s =
     (case v of Minimal \<Rightarrow> None
      | Soft \<Rightarrow> Some (handleQuickPin_Soft supported s)
      | Cyber \<Rightarrow> Some (handleQuickPin_Cyber s))"
| "step v (QuickPinSuccess pos) s = (if v = Soft then Some (quickPin_success pos s) else None)"
| "step v QuickPinError s = (if v = Soft then Some (quickPin_error s) else None)"

fun run :: "variant \<Rightarrow> event list \<Rightarrow> state \<Rightarrow> state option" where
  "run v [] s = Some s"
| "run v (e # es) s = (case step v e s of None \<Rightarrow> None | Some s' \<Rightarrow> run v es s')"

fun delivers_position :: "event \<Rightarrow> bool" where
  "delivers_position (LocateSuccess pos) = True"
| "delivers_position (MountSuccess pos) = True"
| "delivers_position (WatchUpdate pos) = True"
| "delivers_position (QuickPinSuccess pos) = True"
| "delivers_position e = False"

subsection \<open>The controller states of the specification\<close>

text \<open>
  The specification names the states of the add flow \<open>Idle\<close>, \<open>AddModeArmed\<close> and
  \<open>PendingEntry(location)\<close>. In the code they are read off two cells: a pending location
  is \<open>selectedLocation\<close>, and add mode is \<open>isAddingPin\<close>.
\<close>

datatype controller = Idle | AddModeArmed | PendingEntry latlng

definition controller_of :: "state \<Rightarrow> controller" where
  "controller_of s =
     (case selectedLocation s of
        Some loc \<Rightarrow> PendingEntry loc
      | None \<Rightarrow> if isAddingPin s then AddModeArmed else Idle)"

subsection \<open>Sample data\<close>

text \<open>
  A coordinate, a stored pin and two states used where a property is run on a concrete
  input: the point \<open>(51.5, -0.09)\<close>, a pin saved there at \<open>Date.now() = 1730000000000\<close>,
  a screen reopened with that pin in its list, and a screen with that pin, the drawer
  open, add mode on and a position on the map.
\<close>

definition cafe_coordinate :: latlng where
  "cafe_coordinate = (Num 515 (- 1), Num (- 9) (- 2))"

definition stored_pin :: Pin where
  "stored_pin = \<lparr>pin_id = js ''1730000000000'', lat = Num 515 (- 1), lng = Num (- 9) (- 2),
     title = js ''Cafe'', description = [], timestamp = Num 173 10\<rparr>"

definition armed_state :: state where
  "armed_state = initial\<lparr>pins := [stored_pin], isSidebarOpen := True, isAddingPin := True,
     userLocation := Some (Num 1 0, Num 2 0)\<rparr>"

definition reopened_state :: state where
  "reopened_state = initial\<lparr>pins := [stored_pin]\<rparr>"

text \<open>
  \<open>fresh_stamps seen es\<close>: every \<^verbatim>\<open>Date.now()\<close> reading that \<open>savePin\<close> turns into an id
  in the events \<open>es\<close> prints to a string that is not in \<open>seen\<close> and was not read by an
  earlier \<open>savePin\<close> of \<open>es\<close>.
\<close>

fun fresh_stamps :: "jsstring list \<Rightarrow> event list \<Rightarrow> bool" where
  "fresh_stamps seen [] = True"
| "fresh_stamps seen (SavePin now_id now_ts # es) =
     (Number_toString now_id \<notin> set seen \<and> fresh_stamps (Number_toString now_id # seen) es)"
| "fresh_stamps seen (e # es) = fresh_stamps seen es"

text \<open>The \<^verbatim>\<open>Date.now()\<close> readings that the saves of a sequence of events turn into ids.\<close>

fun stamps :: "event list \<Rightarrow> number list" where
  "stamps [] = []"
| "stamps (SavePin now_id now_ts # es) = now_id # stamps es"
| "stamps (e # es) = stamps es"

text \<open>The ids of the pin list, in list order.\<close>

definition ids_of :: "state \<Rightarrow> jsstring list" where
  "ids_of s = map pin_id (pins s)"

text \<open>
  Two complete add flows in which \<^verbatim>\<open>Date.now()\<close> reads \<open>1730000000000\<close> both times (a wall
  clock that was set back, or the frozen clock of a test), and two in which the second
  reading is one millisecond later.
\<close>

definition frozen_clock_adds :: "event list" where
  "frozen_clock_adds =
     [ToggleAddMode, MapClick cafe_coordinate, TypeTitle (js ''Cafe''),
      SavePin (Num 173 10) (Num 173 10),
      ToggleAddMode, MapClick cafe_coordinate, TypeTitle (js ''Library''),
      SavePin (Num 173 10) (Num 173 10)]"

definition ticking_clock_adds :: "event list" where
  "ticking_clock_adds =
     [ToggleAddMode, MapClick cafe_coordinate, TypeTitle (js ''Cafe''),
      SavePin (Num 173 10) (Num 173 10),
      ToggleAddMode, MapClick cafe_coordinate, TypeTitle (js ''Library''),
      SavePin (Num 1730000000001 0) (Num 1730000000001 0)]"

text \<open>
  On \<open>Cyber\<close>: the screen mounts and the position fetch fails; the user opens the
  list, clicks the stored pin, closes the drawer and presses the quick-capture button.
  No event of this sequence delivers a position.
\<close>

definition select_then_capture :: "event list" where
  "select_then_capture =
     [Mount True, MountError, ListButton, SelectPin stored_pin 1024, CloseSidebar,
      QuickPin True]"

subsection \<open>JSON values\<close>

text \<open>
  The pin list is kept in \<^verbatim>\<open>localStorage\<close> as JSON text, written by
  \<^verbatim>\<open>JSON.stringify\<close> and read by \<^verbatim>\<open>JSON.parse\<close>. Both belong to the platform; they are
  modelled after ECMA-262. A value that \<^verbatim>\<open>JSON.parse\<close> can return is \<open>null\<close>, a boolean,
  a number, a string, an array or an object; an object is the list of its properties
  in creation order.
\<close>

datatype jsvalue =
    JNull
  | JBool bool
  | JNumber number
  | JString jsstring
  | JArray "jsvalue list"
  | JObject "(jsstring \<times> jsvalue) list"

subsection \<open>\<^verbatim>\<open>JSON.stringify\<close>\<close>

text \<open>
  \<^verbatim>\<open>QuoteJSONString\<close>: the two-character escapes for backspace, tab, line feed, form feed,
  carriage return, the quote and the backslash; \<^verbatim>\<open>\uXXXX\<close> with lower-case digits for the
  other code units below \<open>0x20\<close> and for a surrogate that is not half of a pair; every
  other code unit as it is.
\<close>

definition hex_char :: "nat \<Rightarrow> 16 word" where
  "hex_char d = (if d < 10 then of_nat (48 + d) else of_nat (87 + d))"

definition UnicodeEscape :: "16 word \<Rightarrow> jsstring" where
  "UnicodeEscape c =
     [0x5C, 0x75, hex_char (unat c div 4096), hex_char (unat c div 256 mod 16),
      hex_char (unat c div 16 mod 16), hex_char (unat c mod 16)]"

definition is_leading_surrogate :: "16 word \<Rightarrow> bool" where
  "is_leading_surrogate c \<longleftrightarrow> 0xD800 \<le> c \<and> c \<le> 0xDBFF"

definition is_trailing_surrogate :: "16 word \<Rightarrow> bool" where
  "is_trailing_surrogate c \<longleftrightarrow> 0xDC00 \<le> c \<and> c \<le> 0xDFFF"

definition quote_unit :: "16 word \<Rightarrow> jsstring" where
  "quote_unit c =
     (if c = 0x08 then [0x5C, 0x62]
      else if c = 0x09 then [0x5C, 0x74]
      else if c = 0x0A then [0x5C, 0x6E]
      else if c = 0x0C then [0x5C, 0x66]
      else if c = 0x0D then [0x5C, 0x72]
      else if c = 0x22 then [0x5C, 0x22]
      else if c = 0x5C then [0x5C, 0x5C]
      else if c < 0x20 \<or> is_leading_surrogate c \<or> is_trailing_surrogate c then UnicodeEscape c
      else [c])"

fun quote_units :: "jsstring \<Rightarrow> jsstring" where
  "quote_units [] = []"
| "quote_units [c] = quote_unit c"
| "quote_units (c # d # cs) =
     (if is_leading_surrogate c \<and> is_trailing_surrogate d then c # d # quote_units cs
      else quote_unit c @ quote_units (d # cs))"

definition QuoteJSONString :: "jsstring \<Rightarrow> jsstring" where
  "QuoteJSONString s = [0x22] @ quote_units s @ [0x22]"

text \<open>
  \<^verbatim>\<open>SerializeJSONProperty\<close> without indentation, which is how the screens call
  \<^verbatim>\<open>JSON.stringify(pins)\<close>: no white space, members and elements separated by commas.
\<close>

fun SerializeJSONProperty :: "jsvalue \<Rightarrow> jsstring"
  and SerializeJSONArray :: "jsvalue list \<Rightarrow> jsstring"
  and SerializeJSONObject :: "(jsstring \<times> jsvalue) list \<Rightarrow> jsstring"
where
  "SerializeJSONProperty JNull = js ''null''"
| "SerializeJSONProperty (JBool b) = (if b then js ''true'' else js ''false'')"
| "SerializeJSONProperty (JNumber x) = Number_toString x"
| "SerializeJSONProperty (JString s) = QuoteJSONString s"
| "SerializeJSONProperty (JArray vs) = [0x5B] @ SerializeJSONArray vs @ [0x5D]"
| "SerializeJSONProperty (JObject ms) = [0x7B] @ SerializeJSONObject ms @ [0x7D]"
| "SerializeJSONArray [] = []"
| "SerializeJSONArray (v # vs) =
     SerializeJSONProperty v @ (if vs = [] then [] else [0x2C] @ SerializeJSONArray vs)"
| "SerializeJSONObject [] = []"
| "SerializeJSONObject (m # ms) =
     QuoteJSONString (fst m) @ [0x3A] @ SerializeJSONProperty (snd m) @
     (if ms = [] then [] else [0x2C] @ SerializeJSONObject ms)"

definition JSON_stringify :: "jsvalue \<Rightarrow> jsstring" where
  "JSON_stringify v = SerializeJSONProperty v"

subsection \<open>\<^verbatim>\<open>JSON.parse\<close>\<close>

text \<open>
  A recursive-descent reader of the JSON grammar. The parts that read one token
  (a string, a number) recurse on the text. The part that reads values, array elements
  and object members is given fuel, one unit per call; \<open>OutOfFuel\<close> is kept apart from
  \<open>SyntaxError\<close>, and \<open>JSON_parse\<close> hands over more fuel than any text can use
  (\<open>JSON_parse_fuel\<close> below).
\<close>

datatype 'a result = Ok 'a | SyntaxError | OutOfFuel

definition is_json_ws :: "16 word \<Rightarrow> bool" where
  "is_json_ws c \<longleftrightarrow> c = 0x09 \<or> c = 0x0A \<or> c = 0x0D \<or> c = 0x20"

definition skip_ws :: "jsstring \<Rightarrow> jsstring" where
  "skip_ws s = dropWhile is_json_ws s"

definition hex_val :: "16 word \<Rightarrow> nat option" where
  "hex_val c =
     (if 0x30 \<le> c \<and> c \<le> 0x39 then Some (unat c - 48)
      else if 0x61 \<le> c \<and> c \<le> 0x66 then Some (unat c - 87)
      else if 0x41 \<le> c \<and> c \<le> 0x46 then Some (unat c - 55)
      else None)"

definition hex4 :: "16 word \<Rightarrow> 16 word \<Rightarrow> 16 word \<Rightarrow> 16 word \<Rightarrow> 16 word option" where
  "hex4 a b c d =
     (case (hex_val a, hex_val b, hex_val c, hex_val d) of
        (Some h1, Some h2, Some h3, Some h4) \<Rightarrow> Some (of_nat (((h1 * 16 + h2) * 16 + h3) * 16 + h4))
      | _ \<Rightarrow> None)"

definition simple_escape :: "16 word \<Rightarrow> 16 word option" where
  "simple_escape e =
     (if e = 0x22 then Some 0x22
      else if e = 0x5C then Some 0x5C
      else if e = 0x2F then Some 0x2F
      else if e = 0x62 then Some 0x08
      else if e = 0x66 then Some 0x0C
      else if e = 0x6E then Some 0x0A
      else if e = 0x72 then Some 0x0D
      else if e = 0x74 then Some 0x09
      else None)"

fun cons_unit :: "16 word \<Rightarrow> (jsstring \<times> jsstring) option \<Rightarrow> (jsstring \<times> jsstring) option" where
  "cons_unit c None = None"
| "cons_unit c (Some (s, r)) = Some (c # s, r)"

fun parse_string_body :: "jsstring \<Rightarrow> (jsstring \<times> jsstring) option" where
  "parse_string_body [] = None"
| "parse_string_body (c # cs) =
     (if c = 0x22 then Some ([], cs)
      else if c = 0x5C then
        (case cs of
           [] \<Rightarrow> None
         | e # es \<Rightarrow>
             if e = 0x75 then
               (case es of
                  h1 # h2 # h3 # h4 # r \<Rightarrow>
                    (case hex4 h1 h2 h3 h4 of
                       None \<Rightarrow> None
                     | Some u \<Rightarrow> cons_unit u (parse_string_body r))
                | _ \<Rightarrow> None)
             else
               (case simple_escape e of
                  None \<Rightarrow> None
                | Some u \<Rightarrow> cons_unit u (parse_string_body es)))
      else if c < 0x20 then None
      else cons_unit c (parse_string_body cs))"

text \<open>
  Numbers: \<^verbatim>\<open>-? (0 | [1-9][0-9]*) (. [0-9]+)? ([eE] [+-]? [0-9]+)?\<close>. The token is read as
  the decimal it denotes, with the trailing zeros of the coefficient moved into the
  exponent (\<open>strip_zeros\<close>), so that one number has one representation
  (\<open>wf_number\<close>). JavaScript rounds the token to the nearest double; for the text that
  \<^verbatim>\<open>Number::toString\<close> prints this gives back the number printed.
\<close>

definition is_digit :: "16 word \<Rightarrow> bool" where
  "is_digit c \<longleftrightarrow> 0x30 \<le> c \<and> c \<le> 0x39"

definition digit_val :: "16 word \<Rightarrow> nat" where
  "digit_val c = unat c - 48"

definition nat_of_digits :: "nat list \<Rightarrow> nat" where
  "nat_of_digits ds = foldl (\<lambda>a d. 10 * a + d) 0 ds"

function strip_zeros :: "nat \<Rightarrow> int \<Rightarrow> nat \<times> int" where
  "strip_zeros c e =
     (if c = 0 then (0, 0)
      else if c mod 10 = 0 then strip_zeros (c div 10) (e + 1)
      else (c, e))"
  by pat_completeness auto
termination
  by (relation "measure fst") auto

declare strip_zeros.simps [simp del]

definition decimal :: "bool \<Rightarrow> nat \<Rightarrow> int \<Rightarrow> number" where
  "decimal neg c e =
     (case strip_zeros c e of (c', e') \<Rightarrow> Num (if neg then - int c' else int c') e')"

fun wf_number :: "number \<Rightarrow> bool" where
  "wf_number (Num m e) = (if m = 0 then e = 0 else m mod 10 \<noteq> 0)"

text \<open>What may follow a number in JSON text without being read as part of it.\<close>

definition ends_number :: "jsstring \<Rightarrow> bool" where
  "ends_number r =
     (case r of [] \<Rightarrow> True
      | c # cs \<Rightarrow> \<not> is_digit c \<and> c \<noteq> 0x2E \<and> c \<noteq> 0x65 \<and> c \<noteq> 0x45)"

definition parse_fraction :: "jsstring \<Rightarrow> (jsstring \<times> jsstring) option" where
  "parse_fraction s =
     (case s of
        [] \<Rightarrow> Some ([], s)
      | c # cs \<Rightarrow>
          if c = 0x2E then
            (if takeWhile is_digit cs = [] then None
             else Some (takeWhile is_digit cs, dropWhile is_digit cs))
          else Some ([], s))"

definition parse_exponent_digits :: "int \<Rightarrow> jsstring \<Rightarrow> (int \<times> jsstring) option" where
  "parse_exponent_digits sg s =
     (if takeWhile is_digit s = [] then None
      else Some (sg * int (nat_of_digits (map digit_val (takeWhile is_digit s))),
                 dropWhile is_digit s))"

definition parse_exponent :: "jsstring \<Rightarrow> (int \<times> jsstring) option" where
  "parse_exponent s =
     (case s of
        [] \<Rightarrow> Some (0, s)
      | c # cs \<Rightarrow>
          if c = 0x65 \<or> c = 0x45 then
            (case cs of
               [] \<Rightarrow> None
             | d # ds \<Rightarrow>
                 if d = 0x2B then parse_exponent_digits 1 ds
                 else if d = 0x2D then parse_exponent_digits (- 1) ds
                 else parse_exponent_digits 1 cs)
          else Some (0, s))"

definition parse_unsigned :: "bool \<Rightarrow> jsstring \<Rightarrow> (number \<times> jsstring) option" where
  "parse_unsigned neg s =
     (let ip = takeWhile is_digit s in
      if ip = [] \<or> (hd ip = 0x30 \<and> 1 < length ip) then None
      else
        (case parse_fraction (dropWhile is_digit s) of
           None \<Rightarrow> None
         | Some (fp, s') \<Rightarrow>
             (case parse_exponent s' of
                None \<Rightarrow> None
              | Some (ex, s'') \<Rightarrow>
                  Some (decimal neg (nat_of_digits (map digit_val (ip @ fp)))
                          (ex - int (length fp)), s''))))"

definition parse_number :: "jsstring \<Rightarrow> (number \<times> jsstring) option" where
  "parse_number s =
     (case s of
        [] \<Rightarrow> None
      | c # cs \<Rightarrow> if c = 0x2D then parse_unsigned True cs else parse_unsigned False s)"

definition starts_with :: "jsstring \<Rightarrow> jsstring \<Rightarrow> bool" where
  "starts_with p s \<longleftrightarrow> take (length p) s = p"

text \<open>
  Members of an object are defined one after the other: a name met again keeps its
  place and takes the new value. (JavaScript moreover lists integer-like names first;
  the names of a pin are not of that kind.)
\<close>

fun CreateDataProperty :: "jsstring \<Rightarrow> jsvalue \<Rightarrow> (jsstring \<times> jsvalue) list \<Rightarrow> (jsstring \<times> jsvalue) list" where
  "CreateDataProperty k v [] = [(k, v)]"
| "CreateDataProperty k v (m # ms) =
     (if fst m = k then (k, v) # ms else m # CreateDataProperty k v ms)"

definition object_of_members :: "(jsstring \<times> jsvalue) list \<Rightarrow> (jsstring \<times> jsvalue) list" where
  "object_of_members ms = foldl (\<lambda>obj m. CreateDataProperty (fst m) (snd m) obj) [] ms"

fun parse_value :: "nat \<Rightarrow> jsstring \<Rightarrow> (jsvalue \<times> jsstring) result"
  and parse_elements :: "nat \<Rightarrow> jsstring \<Rightarrow> (jsvalue list \<times> jsstring) result"
  and parse_members :: "nat \<Rightarrow> jsstring \<Rightarrow> ((jsstring \<times> jsvalue) list \<times> jsstring) result"
where
  "parse_value 0 s = OutOfFuel"
| "parse_value (Suc n) s =
     (case s of
        [] \<Rightarrow> SyntaxError
      | c # cs \<Rightarrow>
          if c = 0x5B then
            (case skip_ws cs of
               [] \<Rightarrow> SyntaxError
             | d # ds \<Rightarrow>
                 if d = 0x5D then Ok (JArray [], ds)
                 else (case parse_elements n (d # ds) of
                         Ok (vs, r) \<Rightarrow> Ok (JArray vs, r)
                       | SyntaxError \<Rightarrow> SyntaxError
                       | OutOfFuel \<Rightarrow> OutOfFuel))
          else if c = 0x7B then
            (case skip_ws cs of
               [] \<Rightarrow> SyntaxError
             | d # ds \<Rightarrow>
                 if d = 0x7D then Ok (JObject [], ds)
                 else (case parse_members n (d # ds) of
                         Ok (ms, r) \<Rightarrow> Ok (JObject (object_of_members ms), r)
                       | SyntaxError \<Rightarrow> SyntaxError
                       | OutOfFuel \<Rightarrow> OutOfFuel))
          else if c = 0x22 then
            (case parse_string_body cs of
               None \<Rightarrow> SyntaxError
             | Some (str, r) \<Rightarrow> Ok (JString str, r))
          else if starts_with (js ''null'') s then Ok (JNull, drop 4 s)
          else if starts_with (js ''true'') s then Ok (JBool True, drop 4 s)
          else if starts_with (js ''false'') s then Ok (JBool False, drop 5 s)
          else
            (case parse_number s of
               None \<Rightarrow> SyntaxError
             | Some (x, r) \<Rightarrow> Ok (JNumber x, r)))"
| "parse_elements 0 s = OutOfFuel"
| "parse_elements (Suc n) s =
     (case parse_value n s of
        Ok (v, r) \<Rightarrow>
          (case skip_ws r of
             [] \<Rightarrow> SyntaxError
           | c # cs \<Rightarrow>
               if c = 0x5D then Ok ([v], cs)
               else if c = 0x2C then
                 (case parse_elements n (skip_ws cs) of
                    Ok (vs, r') \<Rightarrow> Ok (v # vs, r')
                  | SyntaxError \<Rightarrow> SyntaxError
                  | OutOfFuel \<Rightarrow> OutOfFuel)
               else SyntaxError)
      | SyntaxError \<Rightarrow> SyntaxError
      | OutOfFuel \<Rightarrow> OutOfFuel)"
| "parse_members 0 s = OutOfFuel"
| "parse_members (Suc n) s =
     (case s of
        [] \<Rightarrow> SyntaxError
      | q # qs \<Rightarrow>
          if q \<noteq> 0x22 then SyntaxError
          else
            (case parse_string_body qs of
               None \<Rightarrow> SyntaxError
             | Some (k, r) \<Rightarrow>
                 (case skip_ws r of
                    [] \<Rightarrow> SyntaxError
                  | c # cs \<Rightarrow>
                      if c \<noteq> 0x3A then SyntaxError
                      else
                        (case parse_value n (skip_ws cs) of
                           Ok (v, r') \<Rightarrow>
                             (case skip_ws r' of
                                [] \<Rightarrow> SyntaxError
                              | e # es \<Rightarrow>
                                  if e = 0x7D then Ok ([(k, v)], es)
                                  else if e = 0x2C then
                                    (case parse_members n (skip_ws es) of
                                       Ok (ms, r'') \<Rightarrow> Ok ((k, v) # ms, r'')
                                     | SyntaxError \<Rightarrow> SyntaxError
                                     | OutOfFuel \<Rightarrow> OutOfFuel)
                                  else SyntaxError)
                         | SyntaxError \<Rightarrow> SyntaxError
                         | OutOfFuel \<Rightarrow> OutOfFuel))))"

declare parse_value.simps(2) [simp del] parse_elements.simps(2) [simp del]
  parse_members.simps(2) [simp del]

text \<open>
  The values for which printing and reading are inverse: canonical numbers and objects
  without a repeated name. \<open>starts_value\<close> says that a text begins like a value.
\<close>

fun wf_value :: "jsvalue \<Rightarrow> bool"
  and wf_values :: "jsvalue list \<Rightarrow> bool"
  and wf_members :: "(jsstring \<times> jsvalue) list \<Rightarrow> bool"
where
  "wf_value JNull = True"
| "wf_value (JBool b) = True"
| "wf_value (JNumber x) = wf_number x"
| "wf_value (JString s) = True"
| "wf_value (JArray vs) = wf_values vs"
| "wf_value (JObject ms) = (distinct (map fst ms) \<and> wf_members ms)"
| "wf_values [] = True"
| "wf_values (v # vs) = (wf_value v \<and> wf_values vs)"
| "wf_members [] = True"
| "wf_members (m # ms) = (wf_value (snd m) \<and> wf_members ms)"

definition starts_value :: "jsstring \<Rightarrow> bool" where
  "starts_value s =
     (case s of [] \<Rightarrow> False
      | c # cs \<Rightarrow> \<not> is_json_ws c \<and> c \<noteq> 0x5D \<and> c \<noteq> 0x7D)"

text \<open>
  \<^verbatim>\<open>JSON.parse(text)\<close>: \<open>None\<close> stands for the \<^verbatim>\<open>SyntaxError\<close> it throws.
\<close>

definition JSON_parse :: "jsstring \<Rightarrow> jsvalue option" where
  "JSON_parse s =
     (case parse_value (2 * length s + 2) (skip_ws s) of
        Ok (v, r) \<Rightarrow> if skip_ws r = [] then Some v else None
      | SyntaxError \<Rightarrow> None
      | OutOfFuel \<Rightarrow> None)"

subsection \<open>Persistence\<close>

text \<open>
  \<^verbatim>\<open>localStorage\<close> maps keys to strings; the screens use the one key
  \<^verbatim>\<open>"uni_tracker_pins"\<close>. \<open>Pin_value\<close> is the object built by the literal in \<open>savePin\<close>, with
  its properties in the order of the literal.
\<close>

type_synonym storage = "jsstring \<rightharpoonup> jsstring"

definition storage_key :: jsstring where
  "storage_key = js ''uni_tracker_pins''"

definition Pin_value :: "Pin \<Rightarrow> jsvalue" where
  "Pin_value p =
     JObject [(js ''id'', JString (pin_id p)), (js ''lat'', JNumber (lat p)),
              (js ''lng'', JNumber (lng p)), (js ''title'', JString (title p)),
              (js ''description'', JString (description p)),
              (js ''timestamp'', JNumber (timestamp p))]"

text \<open>
  The effect that saves: \<^verbatim>\<open>localStorage.setItem("uni_tracker_pins", JSON.stringify(pins))\<close>,
  run after every change of \<open>pins\<close>.
\<close>

definition save_effect :: "Pin list \<Rightarrow> storage \<Rightarrow> storage" where
  "save_effect ps st = st(storage_key \<mapsto> JSON_stringify (JArray (map Pin_value ps)))"

text \<open>
  The effect that loads, run once on mount. It does nothing when the key is absent or
  holds the empty string (\<^verbatim>\<open>if (saved)\<close>); otherwise it calls \<^verbatim>\<open>setPins(JSON.parse(saved))\<close>
  inside \<^verbatim>\<open>try\<close>, and the \<^verbatim>\<open>catch\<close> only logs. Whatever \<^verbatim>\<open>JSON.parse\<close> returns goes into the
  cell: the code checks nothing about it. \<open>pins_after_load\<close> is the content of the cell
  \<open>pins\<close> after the effect; the cell starts as the empty array.
\<close>

datatype load_outcome = Unchanged | SetPins jsvalue | Caught

definition load_effect :: "storage \<Rightarrow> load_outcome" where
  "load_effect st =
     (case st storage_key of
        None \<Rightarrow> Unchanged
      | Some saved \<Rightarrow>
          if saved = [] then Unchanged
          else (case JSON_parse saved of Some v \<Rightarrow> SetPins v | None \<Rightarrow> Caught))"

definition pins_after_load :: "storage \<Rightarrow> jsvalue" where
  "pins_after_load st = (case load_effect st of SetPins v \<Rightarrow> v | _ \<Rightarrow> JArray [])"

text \<open>
  A valid pin has finite numbers in canonical form; the strings are free. \<open>no_storage\<close>
  is a storage without any key.
\<close>

definition valid_Pin :: "Pin \<Rightarrow> bool" where
  "valid_Pin p \<longleftrightarrow> wf_number (lat p) \<and> wf_number (lng p) \<and> wf_number (timestamp p)"

definition no_storage :: storage where
  "no_storage = Map.empty"


section \<open>Properties\<close>

subsection \<open>Auxiliary facts\<close>

lemma digits_small: "n < 10 \<Longrightarrow> digits n = [n]"
  by (simp add: digits.simps)

lemma digits_large: "\<not> n < 10 \<Longrightarrow> digits n = digits (n div 10) @ [n mod 10]"
  by (subst digits.simps) simp

lemma zeros_numeral:
  "replicate (numeral k) (0x30 :: 16 word) = 0x30 # replicate (pred_numeral k) 0x30"
  by (simp add: numeral_eq_Suc)

lemmas toString_eval = Number_toString.simps unsigned_toString_def digits_small digits_large
  digit_chars_def digit_char_def js_def zeros_numeral

lemma filter_absent: "i \<notin> pin_id ` set ps \<Longrightarrow> filter (\<lambda>p. pin_id p \<noteq> i) ps = ps"
  by (induction ps) auto

lemma dropWhile_all_iff:
  "(\<forall>x \<in> set (dropWhile P xs). P x) \<longleftrightarrow> (\<forall>x \<in> set xs. P x)"
  by (induction xs) auto

lemma trim_empty_iff: "trim s = [] \<longleftrightarrow> (\<forall>c \<in> set s. isWhiteSpace c)"
  by (simp add: trim_def dropWhile_eq_Nil_conv dropWhile_all_iff)

lemma trim_blank: "trim [] = []" "trim (js ''   '') = []"
  by (simp_all add: trim_def js_def isWhiteSpace_def)

lemma trim_Library: "trim (js ''Library'') \<noteq> []"
  by (simp add: trim_empty_iff js_def isWhiteSpace_def)

lemma trim_Cafe: "trim (js ''Cafe'') \<noteq> []"
  by (simp add: trim_empty_iff js_def isWhiteSpace_def)

lemma title_required_destructive: "destructive (title_required v)"
  by (cases v) (simp_all add: failure_def)

lemma pin_saved_plain: "\<not> destructive (pin_saved v)"
  by (cases v) (simp_all add: notice_def)

lemma pin_removed_plain: "\<not> destructive (pin_removed v)"
  by (cases v) (simp_all add: notice_def)

lemma savePin_rejected:
  "selectedLocation s = Some loc \<Longrightarrow> trim (pinTitle s) = [] \<Longrightarrow>
   savePin v now_id now_ts s = s\<lparr>toasts := toasts s @ [title_required v]\<rparr>"
  by (simp add: savePin_def raise_toast_def)

lemma savePin_accepted:
  "selectedLocation s = Some loc \<Longrightarrow> trim (pinTitle s) \<noteq> [] \<Longrightarrow>
   savePin v now_id now_ts s =
     s\<lparr>pins := with_new v (newPin now_id now_ts loc s) (pins s), pinTitle := [], pinDesc := [],
       selectedLocation := None, isAddingPin := False,
       toasts := toasts s @ [pin_saved v]\<rparr>"
  by (simp add: savePin_def raise_toast_def)

subsection \<open>Deleting a pin\<close>

text \<open>
  Claim C7 (idempotent delete). For every pin list and every id that no pin of the list
  carries, \<open>deletePin\<close> leaves the list and every other cell as they were; it only raises
  its usual toast, which is not an error toast. In any case no pin with that id is left
  afterwards, and when one entry carries the id, exactly that entry is taken out and
  the others keep their order.
\<close>
theorem deletePin_absent_or_present:
  "(i \<notin> pin_id ` set (pins s) \<longrightarrow>
      deletePin v i s = s\<lparr>toasts := toasts s @ [pin_removed v]\<rparr>) \<and>
   \<not> destructive (pin_removed v) \<and>
   i \<notin> pin_id ` set (pins (deletePin v i s)) \<and>
   (\<forall>qs p rs. pins s = qs @ p # rs \<and> pin_id p = i \<and> i \<notin> pin_id ` set (qs @ rs) \<longrightarrow>
      pins (deletePin v i s) = qs @ rs)"
proof (intro conjI impI allI)
  assume "i \<notin> pin_id ` set (pins s)"
  then show "deletePin v i s = s\<lparr>toasts := toasts s @ [pin_removed v]\<rparr>"
    by (simp add: deletePin_def raise_toast_def filter_absent)
next
  show "\<not> destructive (pin_removed v)"
    by (rule pin_removed_plain)
next
  show "i \<notin> pin_id ` set (pins (deletePin v i s))"
    by (auto simp: deletePin_def raise_toast_def)
next
  fix qs p rs
  assume a: "pins s = qs @ p # rs \<and> pin_id p = i \<and> i \<notin> pin_id ` set (qs @ rs)"
  then have "i \<notin> pin_id ` set (qs @ rs)"
    by blast
  then have "filter (\<lambda>p. pin_id p \<noteq> i) (qs @ rs) = qs @ rs"
    by (rule filter_absent)
  with a show "pins (deletePin v i s) = qs @ rs"
    by (simp add: deletePin_def raise_toast_def)
qed

theorem deletePin_absent_or_present_witness:
  "js ''42'' \<notin> pin_id ` set (pins reopened_state) \<and>
   deletePin Minimal (js ''42'') reopened_state =
     reopened_state\<lparr>toasts := toasts reopened_state @ [pin_removed Minimal]\<rparr> \<and>
   pins reopened_state = [] @ stored_pin # [] \<and>
   pin_id stored_pin = js ''1730000000000'' \<and>
   js ''1730000000000'' \<notin> pin_id ` set ([] @ []) \<and>
   pins (deletePin Minimal (js ''1730000000000'') reopened_state) = [] @ []"
proof -
  have absent: "js ''42'' \<notin> pin_id ` set (pins reopened_state)"
    by (simp add: reopened_state_def initial_def stored_pin_def js_def)
  have present: "pins reopened_state = [] @ stored_pin # [] \<and>
      pin_id stored_pin = js ''1730000000000'' \<and>
      js ''1730000000000'' \<notin> pin_id ` set ([] @ [])"
    by (simp add: reopened_state_def initial_def stored_pin_def)
  from deletePin_absent_or_present [of "js ''42''" reopened_state Minimal] absent
  have "deletePin Minimal (js ''42'') reopened_state =
     reopened_state\<lparr>toasts := toasts reopened_state @ [pin_removed Minimal]\<rparr>"
    by blast
  moreover from deletePin_absent_or_present [of "js ''1730000000000''" reopened_state Minimal]
    present
  have "pins (deletePin Minimal (js ''1730000000000'') reopened_state) = [] @ []"
    by blast
  ultimately show ?thesis using absent present by blast
qed

subsection \<open>Saving without a pending location\<close>

text \<open>
  Claim C10. When no pending location exists (\<open>selectedLocation\<close> is null), \<open>savePin\<close>
  returns at once: the whole state is unchanged, that is the pin list, the typed title
  and description, the add-mode flag and the sidebar flag, and no toast is raised (the
  toast log is part of the state).
\<close>
theorem savePin_without_pending_location:
  "selectedLocation s = None \<Longrightarrow> savePin v now_id now_ts s = s"
  by (simp add: savePin_def)

theorem savePin_without_pending_location_witness:
  "selectedLocation armed_state = None \<and>
   savePin Soft (Num 173 10) (Num 173 10) armed_state = armed_state"
proof -
  have h: "selectedLocation armed_state = None"
    by (simp add: armed_state_def initial_def)
  from savePin_without_pending_location [OF h] h show ?thesis by simp
qed

subsection \<open>A rejected title keeps the form\<close>

text \<open>
  Claim C8 (validation-failure atomicity). When \<open>savePin\<close> runs with a pending location and
  a title that is empty after trimming, the only change is one error toast: the
  controller is still in \<open>PendingEntry\<close> with the same location, and the typed title, the
  typed description and the pin list are as before.
\<close>
theorem savePin_blank_title_keeps_form:
  assumes "selectedLocation s = Some loc" and "trim (pinTitle s) = []"
  shows "savePin v now_id now_ts s = s\<lparr>toasts := toasts s @ [title_required v]\<rparr> \<and>
         destructive (title_required v) \<and>
         controller_of (savePin v now_id now_ts s) = PendingEntry loc \<and>
         selectedLocation (savePin v now_id now_ts s) = Some loc \<and>
         pinTitle (savePin v now_id now_ts s) = pinTitle s \<and>
         pinDesc (savePin v now_id now_ts s) = pinDesc s \<and>
         pins (savePin v now_id now_ts s) = pins s"
  using assms
  by (simp add: savePin_rejected title_required_destructive controller_of_def)

theorem savePin_blank_title_keeps_form_witness:
  "selectedLocation (armed_state\<lparr>selectedLocation := Some cafe_coordinate, pinTitle := js ''   '',
       pinDesc := js ''Cafe''\<rparr>) = Some cafe_coordinate \<and>
   trim (pinTitle (armed_state\<lparr>selectedLocation := Some cafe_coordinate, pinTitle := js ''   '',
       pinDesc := js ''Cafe''\<rparr>)) = [] \<and>
   pinDesc (savePin Cyber (Num 173 10) (Num 173 10)
       (armed_state\<lparr>selectedLocation := Some cafe_coordinate, pinTitle := js ''   '',
          pinDesc := js ''Cafe''\<rparr>)) = js ''Cafe'' \<and>
   controller_of (savePin Cyber (Num 173 10) (Num 173 10)
       (armed_state\<lparr>selectedLocation := Some cafe_coordinate, pinTitle := js ''   '',
          pinDesc := js ''Cafe''\<rparr>)) = PendingEntry cafe_coordinate"
proof -
  let ?s = "armed_state\<lparr>selectedLocation := Some cafe_coordinate, pinTitle := js ''   '',
       pinDesc := js ''Cafe''\<rparr>"
  have h1: "selectedLocation ?s = Some cafe_coordinate" by simp
  have h2: "trim (pinTitle ?s) = []" by (simp add: trim_blank)
  from savePin_blank_title_keeps_form [OF h1 h2, of Cyber "Num 173 10" "Num 173 10"]
  have "pinDesc (savePin Cyber (Num 173 10) (Num 173 10) ?s) = pinDesc ?s"
    and "controller_of (savePin Cyber (Num 173 10) (Num 173 10) ?s) = PendingEntry cafe_coordinate"
    by blast+
  with h1 h2 show ?thesis by simp
qed

subsection \<open>Validation of the title\<close>

text \<open>
  Claim C2 (add validation). With a pin candidate on the form, that is with a pending
  location, and whatever the pin list is: saving a title that is empty
  or made of white space only leaves the pin list unchanged and raises the error
  toast, and the titles \<open>""\<close> and three spaces are such titles; saving the title \<open>"Library"\<close> with an empty description
  adds exactly one pin, whose description is empty, and raises a plain toast. The new
  pin is put last by \<open>Minimal\<close> and first by \<open>Soft\<close> and \<open>Cyber\<close>.
\<close>
theorem savePin_validates_title:
  assumes "selectedLocation s = Some loc"
  shows "((\<forall>c \<in> set t. isWhiteSpace c) \<longrightarrow>
            pins (savePin v now_id now_ts (s\<lparr>pinTitle := t, pinDesc := d\<rparr>)) = pins s \<and>
            toasts (savePin v now_id now_ts (s\<lparr>pinTitle := t, pinDesc := d\<rparr>)) =
              toasts s @ [title_required v] \<and>
            destructive (title_required v)) \<and>
         trim [] = [] \<and> trim (js ''   '') = [] \<and>
         pins (savePin v now_id now_ts (s\<lparr>pinTitle := js ''Library'', pinDesc := []\<rparr>)) =
           (if v = Minimal
            then pins s @ [\<lparr>pin_id = Number_toString now_id, lat = fst loc, lng = snd loc,
                     title = js ''Library'', description = [], timestamp = now_ts\<rparr>]
            else \<lparr>pin_id = Number_toString now_id, lat = fst loc, lng = snd loc,
                     title = js ''Library'', description = [], timestamp = now_ts\<rparr> # pins s) \<and>
         toasts (savePin v now_id now_ts (s\<lparr>pinTitle := js ''Library'', pinDesc := []\<rparr>)) =
           toasts s @ [pin_saved v] \<and>
         \<not> destructive (pin_saved v)"
proof (intro conjI impI)
  assume "\<forall>c \<in> set t. isWhiteSpace c"
  then have blank: "trim t = []" by (simp add: trim_empty_iff)
  let ?s = "s\<lparr>pinTitle := t, pinDesc := d\<rparr>"
  from assms blank have "savePin v now_id now_ts ?s = ?s\<lparr>toasts := toasts ?s @ [title_required v]\<rparr>"
    by (intro savePin_rejected) simp_all
  then show "pins (savePin v now_id now_ts ?s) = pins s"
    and "toasts (savePin v now_id now_ts ?s) = toasts s @ [title_required v]"
    by simp_all
  show "destructive (title_required v)" by (rule title_required_destructive)
next
  show "trim [] = []" by (rule trim_blank)
  show "trim (js ''   '') = []" by (rule trim_blank)
next
  let ?s = "s\<lparr>pinTitle := js ''Library'', pinDesc := []\<rparr>"
  from assms have "savePin v now_id now_ts ?s =
     ?s\<lparr>pins := with_new v (newPin now_id now_ts loc ?s) (pins ?s), pinTitle := [], pinDesc := [],
       selectedLocation := None, isAddingPin := False,
       toasts := toasts ?s @ [pin_saved v]\<rparr>"
    by (intro savePin_accepted) (simp_all add: trim_Library)
  then show "pins (savePin v now_id now_ts ?s) =
           (if v = Minimal
            then pins s @ [\<lparr>pin_id = Number_toString now_id, lat = fst loc, lng = snd loc,
                     title = js ''Library'', description = [], timestamp = now_ts\<rparr>]
            else \<lparr>pin_id = Number_toString now_id, lat = fst loc, lng = snd loc,
                     title = js ''Library'', description = [], timestamp = now_ts\<rparr> # pins s)"
    and "toasts (savePin v now_id now_ts ?s) = toasts s @ [pin_saved v]"
    by (cases v; simp add: newPin_def)+
  show "\<not> destructive (pin_saved v)" by (rule pin_saved_plain)
qed

theorem savePin_validates_title_witness:
  "selectedLocation (initial\<lparr>selectedLocation := Some cafe_coordinate\<rparr>) = Some cafe_coordinate \<and>
   list_all isWhiteSpace (js ''   '') \<and>
   pins (savePin Minimal (Num 173 10) (Num 173 10)
          (initial\<lparr>selectedLocation := Some cafe_coordinate, pinTitle := js ''   '',
             pinDesc := []\<rparr>)) = [] \<and>
   pins (savePin Minimal (Num 173 10) (Num 173 10)
          (initial\<lparr>selectedLocation := Some cafe_coordinate, pinTitle := js ''Library'',
             pinDesc := []\<rparr>)) =
     [\<lparr>pin_id = js ''1730000000000'', lat = Num 515 (- 1), lng = Num (- 9) (- 2),
       title = js ''Library'', description = [], timestamp = Num 173 10\<rparr>]"
proof -
  let ?s = "initial\<lparr>selectedLocation := Some cafe_coordinate\<rparr>"
  have h: "selectedLocation ?s = Some cafe_coordinate" by simp
  have n: "Number_toString (Num 173 10) = js ''1730000000000''" by (simp add: toString_eval)
  have p: "pins ?s = []" by (simp add: initial_def)
  have w: "\<forall>c \<in> set (js ''   ''). isWhiteSpace c"
    by (simp add: js_def isWhiteSpace_def)
  then have w': "list_all isWhiteSpace (js ''   '')"
    by (simp add: list_all_iff)
  from savePin_validates_title [OF h, of "js ''   ''" Minimal "Num 173 10" "Num 173 10" "[]"] h n p w w'
  show ?thesis by (simp add: cafe_coordinate_def)
qed

subsection \<open>The add flow, step by step\<close>

text \<open>
  Claim C6 (state machine scenario), on the screen \<open>Minimal\<close>. From any state in \<open>Idle\<close>:
  the add-pin button leads to \<open>AddModeArmed\<close>; a map click at \<open>(51.5, -0.09)\<close> then leads
  to \<open>PendingEntry (51.5, -0.09)\<close>; from there Cancel leads to \<open>Idle\<close> with the pin list
  as it was, while typing the title \<open>"Cafe"\<close> and an empty description and saving leads
  to \<open>Idle\<close> with exactly one more pin, at that coordinate.
\<close>
theorem add_flow_scenario:
  assumes "controller_of s = Idle"
  shows "\<exists>s1 s2 s3 s4.
           run Minimal [ToggleAddMode] s = Some s1 \<and> controller_of s1 = AddModeArmed \<and>
           run Minimal [MapClick cafe_coordinate] s1 = Some s2 \<and>
           controller_of s2 = PendingEntry cafe_coordinate \<and>
           run Minimal [Cancel] s2 = Some s3 \<and> controller_of s3 = Idle \<and> pins s3 = pins s \<and>
           run Minimal [TypeTitle (js ''Cafe''), TypeDesc [], SavePin now_id now_ts] s2 = Some s4 \<and>
           controller_of s4 = Idle \<and>
           pins s4 = pins s @ [\<lparr>pin_id = Number_toString now_id, lat = Num 515 (- 1),
                                 lng = Num (- 9) (- 2), title = js ''Cafe'', description = [],
                                 timestamp = now_ts\<rparr>]"
proof -
  from assms have idle: "selectedLocation s = None" "\<not> isAddingPin s"
    by (auto simp: controller_of_def split: option.splits if_splits)
  define s1 where "s1 = toggleAddMode Minimal s"
  define s2 where "s2 = handleMapClick cafe_coordinate s1"
  define s3 where "s3 = s2\<lparr>selectedLocation := None, isAddingPin := False\<rparr>"
  define f where "f = s2\<lparr>pinTitle := js ''Cafe'', pinDesc := []\<rparr>"
  define s4 where "s4 = savePin Minimal now_id now_ts f"
  have armed: "isAddingPin s1" "selectedLocation s1 = None" "pins s1 = pins s"
    using idle by (simp_all add: s1_def toggleAddMode_def raise_toast_def)
  have pending: "selectedLocation s2 = Some cafe_coordinate" "pins s2 = pins s"
    using armed by (simp_all add: s2_def handleMapClick_def)
  have form: "selectedLocation f = Some cafe_coordinate" "trim (pinTitle f) \<noteq> []"
    "pins f = pins s" "pinTitle f = js ''Cafe''" "pinDesc f = []"
    using pending by (simp_all add: f_def trim_Cafe)
  have "s4 = f\<lparr>pins := with_new Minimal (newPin now_id now_ts cafe_coordinate f) (pins f),
         pinTitle := [], pinDesc := [], selectedLocation := None, isAddingPin := False,
         toasts := toasts f @ [pin_saved Minimal]\<rparr>"
    unfolding s4_def using form(1,2) by (rule savePin_accepted)
  then have saved: "selectedLocation s4 = None" "\<not> isAddingPin s4"
    "pins s4 = pins s @ [\<lparr>pin_id = Number_toString now_id, lat = Num 515 (- 1),
                                 lng = Num (- 9) (- 2), title = js ''Cafe'', description = [],
                                 timestamp = now_ts\<rparr>]"
    using form by (simp_all add: newPin_def cafe_coordinate_def)
  have "run Minimal [ToggleAddMode] s = Some s1" by (simp add: s1_def)
  moreover have "controller_of s1 = AddModeArmed" using armed by (simp add: controller_of_def)
  moreover have "run Minimal [MapClick cafe_coordinate] s1 = Some s2" by (simp add: s2_def)
  moreover have "controller_of s2 = PendingEntry cafe_coordinate"
    using pending by (simp add: controller_of_def)
  moreover have "run Minimal [Cancel] s2 = Some s3" by (simp add: s3_def)
  moreover have "controller_of s3 = Idle" "pins s3 = pins s"
    using pending by (simp_all add: s3_def controller_of_def)
  moreover have "run Minimal [TypeTitle (js ''Cafe''), TypeDesc [], SavePin now_id now_ts] s2 = Some s4"
    by (simp add: s4_def f_def)
  moreover have "controller_of s4 = Idle" using saved by (simp add: controller_of_def)
  ultimately show ?thesis using saved(3) by blast
qed

theorem add_flow_scenario_witness:
  "controller_of initial = Idle \<and>
   run Minimal [ToggleAddMode, MapClick cafe_coordinate, Cancel] initial =
     Some (initial\<lparr>isSidebarOpen := True,
             toasts := [notice ''Tap anywhere on the map to drop a pin'']\<rparr>) \<and>
   map_option pins
     (run Minimal [ToggleAddMode, MapClick cafe_coordinate, TypeTitle (js ''Cafe''),
                   TypeDesc [], SavePin (Num 173 10) (Num 173 10)] initial) =
     Some [\<lparr>pin_id = js ''1730000000000'', lat = Num 515 (- 1), lng = Num (- 9) (- 2),
             title = js ''Cafe'', description = [], timestamp = Num 173 10\<rparr>]"
proof -
  have h: "controller_of initial = Idle" by (simp add: controller_of_def initial_def)
  have n: "Number_toString (Num 173 10) = js ''1730000000000''" by (simp add: toString_eval)
  have p: "pins initial = []" by (simp add: initial_def)
  from add_flow_scenario [OF h, of "Num 173 10" "Num 173 10"] obtain s1 s2 s3 s4 where
    r: "run Minimal [ToggleAddMode] initial = Some s1"
       "run Minimal [MapClick cafe_coordinate] s1 = Some s2"
       "run Minimal [Cancel] s2 = Some s3"
       "run Minimal [TypeTitle (js ''Cafe''), TypeDesc [], SavePin (Num 173 10) (Num 173 10)] s2 = Some s4"
       "pins s4 = pins initial @ [\<lparr>pin_id = Number_toString (Num 173 10), lat = Num 515 (- 1),
                                 lng = Num (- 9) (- 2), title = js ''Cafe'', description = [],
                                 timestamp = Num 173 10\<rparr>]"
    by blast
  have c: "run Minimal [ToggleAddMode, MapClick cafe_coordinate, Cancel] initial =
     Some (initial\<lparr>isSidebarOpen := True,
             toasts := [notice ''Tap anywhere on the map to drop a pin'']\<rparr>)"
    by (simp add: toggleAddMode_def handleMapClick_def raise_toast_def initial_def)
  from r have "run Minimal [ToggleAddMode, MapClick cafe_coordinate, TypeTitle (js ''Cafe''),
                   TypeDesc [], SavePin (Num 173 10) (Num 173 10)] initial = Some s4"
    by (simp split: option.splits)
  with r(5) n p h c show ?thesis by simp
qed

lemma stamp_173: "Number_toString (Num 173 10) = js ''1730000000000''"
  by (simp add: toString_eval)

subsection \<open>Selecting a pin from the list\<close>

text \<open>
  Claim C9 says that selecting a pin moves the controller to \<open>Idle\<close> and never changes
  the live coordinate. It fails on the code: with add mode armed and the position
  \<open>(1, 2)\<close> on the map, \<open>flyToPin\<close> leaves the controller armed, and the cell
  \<open>userLocation\<close>, which holds the position received from geolocation, now holds the
  pin's coordinate.
\<close>
theorem flyToPin_counterexample:
  "controller_of armed_state = AddModeArmed \<and>
   controller_of (flyToPin Minimal (lat stored_pin) (lng stored_pin) 1024 armed_state) \<noteq> Idle \<and>
   userLocation armed_state = Some (Num 1 0, Num 2 0) \<and>
   userLocation (flyToPin Minimal (lat stored_pin) (lng stored_pin) 1024 armed_state) =
     Some (Num 515 (- 1), Num (- 9) (- 2))"
  by (simp add: flyToPin_def controller_of_def armed_state_def initial_def stored_pin_def)

text \<open>
  Claim C9 as amended. Selecting a pin from the list leaves the controller state as it
  was (\<open>Idle\<close> stays \<open>Idle\<close>, \<open>AddModeArmed\<close> stays armed), changes no pin, no form field and
  raises no toast, and the centre handed to the map controller becomes the pin's
  coordinate.
\<close>

theorem flyToPin_frame:
  "pins (flyToPin v la ln w s) = pins s \<and>
   controller_of (flyToPin v la ln w s) = controller_of s \<and>
   selectedLocation (flyToPin v la ln w s) = selectedLocation s \<and>
   isAddingPin (flyToPin v la ln w s) = isAddingPin s \<and>
   pinTitle (flyToPin v la ln w s) = pinTitle s \<and>
   pinDesc (flyToPin v la ln w s) = pinDesc s \<and>
   toasts (flyToPin v la ln w s) = toasts s \<and>
   userLocation (flyToPin v la ln w s) = Some (la, ln)"
  by (cases v) (simp_all add: flyToPin_def controller_of_def)

subsection \<open>Quick capture\<close>

text \<open>
  On \<open>Cyber\<close> the quick-capture button is refused with an error toast while
  \<open>userLocation\<close> is empty; on \<open>Soft\<close> the click itself only raises a toast.
\<close>
lemma handleQuickPin_Cyber_refused:
  "userLocation s = None \<Longrightarrow>
   handleQuickPin_Cyber s = s\<lparr>toasts := toasts s @ [failure ''Waiting for GPS...'']\<rparr>"
  by (simp add: handleQuickPin_Cyber_def raise_toast_def)

lemma handleQuickPin_Soft_only_toasts:
  "handleQuickPin_Soft False s = s\<lparr>toasts := toasts s @ [failure ''Geolocation not supported'']\<rparr>"
  "handleQuickPin_Soft True s = s\<lparr>toasts := toasts s @ [notice ''Capturing current spot...'']\<rparr>"
  by (simp_all add: handleQuickPin_Soft_def raise_toast_def)

text \<open>
  Claim C5 (quick capture without signal) against the code of \<open>Cyber\<close>. The screen is
  reopened with one stored pin, the position fetch fails and no position is ever
  delivered; the user selects the pin in the list and then presses the quick-capture
  button. The claim asks for a
  refusal with a failure notice and no pending entry. The code opens the form with the
  pin's coordinate as pending location and raises a plain toast, because \<open>flyToPin\<close>
  has written the pin's coordinate into \<open>userLocation\<close>.
\<close>

theorem quick_capture_after_selecting_pin:
  "userLocation reopened_state = None \<and>
   list_all (Not \<circ> delivers_position) select_then_capture \<and>
   run Cyber select_then_capture reopened_state =
     Some (reopened_state
            \<lparr>userLocation := Some (Num 515 (- 1), Num (- 9) (- 2)),
             isSidebarOpen := True,
             selectedLocation := Some (Num 515 (- 1), Num (- 9) (- 2)),
             toasts := [(failure ''GPS Connection Failed'')
                          \<lparr>toast_description :=
                             Some ''Please enable location services in your browser settings.''\<rparr>,
                        notice ''Capturing Coordinates...'']\<rparr>) \<and>
   \<not> destructive (notice ''Capturing Coordinates...'')"
  by (simp add: select_then_capture_def reopened_state_def initial_def stored_pin_def
      mount_tracking_def mount_error_def listButton_def closeSidebar_def flyToPin_def
      handleQuickPin_Cyber_def raise_toast_def notice_def failure_def)

subsection \<open>Ids of the pins\<close>

text \<open>
  Claim C4 says that the ids after N adds are pairwise distinct, from any list. It fails
  on the code when two adds read the same \<^verbatim>\<open>Date.now()\<close>: both pins get the id
  \<open>"1730000000000"\<close>.
\<close>
theorem frozen_clock_duplicates_id:
  "map_option ids_of (run Minimal frozen_clock_adds initial) =
     Some [js ''1730000000000'', js ''1730000000000''] \<and>
   map_option (distinct \<circ> ids_of) (run Minimal frozen_clock_adds initial) = Some False"
proof -
  have "map_option ids_of (run Minimal frozen_clock_adds initial) =
     Some [js ''1730000000000'', js ''1730000000000'']"
    by (simp add: frozen_clock_adds_def initial_def toggleAddMode_def handleMapClick_def
      savePin_def raise_toast_def trim_Cafe trim_Library newPin_def stamp_173 ids_of_def)
  then show ?thesis by (auto simp: comp_def)
qed

lemma ids_of_savePin:
  "ids_of (savePin v now_id now_ts s) = ids_of s \<or>
   ids_of (savePin v now_id now_ts s) = ids_of s @ [Number_toString now_id] \<or>
   ids_of (savePin v now_id now_ts s) = Number_toString now_id # ids_of s"
  by (cases v) (simp_all add: savePin_def raise_toast_def newPin_def ids_of_def split: option.splits)

lemma ids_of_deletePin: "ids_of (deletePin v i s) = filter (\<lambda>j. j \<noteq> i) (ids_of s)"
  by (simp add: deletePin_def raise_toast_def ids_of_def filter_map comp_def)

lemma step_keeps_pins:
  assumes "step v e s = Some s'" and "\<forall>a b. e \<noteq> SavePin a b" and "\<forall>i. e \<noteq> DeletePin i"
  shows "pins s' = pins s"
  using assms
  by (cases e; cases v)
    (auto simp: listButton_def closeSidebar_def handleLocateMe_def locate_success_def
      locate_error_def mount_tracking_def mount_success_def mount_error_def watch_update_def toggleAddMode_def
      handleMapClick_def flyToPin_def handleQuickPin_Soft_def handleQuickPin_Cyber_def
      quickPin_success_def quickPin_error_def raise_toast_def
      split: if_splits option.splits)

lemma step_ids:
  assumes "step v e s = Some s'" and "distinct (ids_of s)" and "set (ids_of s) \<subseteq> set seen"
    and "fresh_stamps seen (e # es)"
  shows "\<exists>seen'. distinct (ids_of s') \<and> set (ids_of s') \<subseteq> set seen' \<and> fresh_stamps seen' es"
proof (cases e)
  case (SavePin a b)
  with assms(4) have fresh: "Number_toString a \<notin> set seen"
    "fresh_stamps (Number_toString a # seen) es"
    by simp_all
  from SavePin assms(1) have s': "s' = savePin v a b s" by simp
  from ids_of_savePin [of v a b s] fresh(1) assms(2,3)
  have "distinct (ids_of s') \<and> set (ids_of s') \<subseteq> set (Number_toString a # seen)"
    unfolding s' by auto
  with fresh(2) show ?thesis by blast
next
  case (DeletePin i)
  with assms(1) have "s' = deletePin v i s" by simp
  then have "ids_of s' = filter (\<lambda>j. j \<noteq> i) (ids_of s)"
    by (simp add: ids_of_deletePin)
  with assms(2,3) have "distinct (ids_of s') \<and> set (ids_of s') \<subseteq> set seen"
    by auto
  moreover from DeletePin assms(4) have "fresh_stamps seen es" by simp
  ultimately show ?thesis by blast
qed (use assms step_keeps_pins [OF assms(1)] in \<open>auto simp: ids_of_def\<close>)

lemma run_ids:
  "run v es s = Some s' \<Longrightarrow> distinct (ids_of s) \<Longrightarrow> set (ids_of s) \<subseteq> set seen \<Longrightarrow>
   fresh_stamps seen es \<Longrightarrow> distinct (ids_of s')"
proof (induction es arbitrary: s seen)
  case Nil
  then show ?case by simp
next
  case (Cons e es)
  from Cons.prems(1) obtain s1 where s1: "step v e s = Some s1" "run v es s1 = Some s'"
    by (auto split: option.splits)
  from step_ids [OF s1(1) Cons.prems(2,3,4)] obtain seen' where
    "distinct (ids_of s1)" "set (ids_of s1) \<subseteq> set seen'" "fresh_stamps seen' es"
    by blast
  with Cons.IH [OF s1(2)] show ?case by blast
qed


subsection \<open>Digits\<close>

lemma digits_lt10: "d \<in> set (digits n) \<Longrightarrow> d < 10"
  by (induction n arbitrary: d rule: digits.induct) (subst (asm) digits.simps, auto split: if_splits)

lemma digits_nonempty: "digits n \<noteq> []"
  by (subst digits.simps) simp

lemma nat_of_digits_snoc: "nat_of_digits (ds @ [d]) = 10 * nat_of_digits ds + d"
  by (simp add: nat_of_digits_def)

lemma nat_of_digits_digits: "nat_of_digits (digits n) = n"
proof (induction n rule: digits.induct)
  case (1 n)
  show ?case
  proof (cases "n < 10")
    case True
    then show ?thesis by (simp add: digits_small nat_of_digits_def)
  next
    case False
    with 1 show ?thesis by (simp add: digits_large nat_of_digits_snoc)
  qed
qed

lemma hd_digits: "0 < n \<Longrightarrow> hd (digits n) \<noteq> 0"
proof (induction n rule: digits.induct)
  case (1 n)
  show ?case
  proof (cases "n < 10")
    case True
    with 1 show ?thesis by (simp add: digits_small)
  next
    case False
    then have "0 < n div 10" by simp
    with 1 False show ?thesis by (simp add: digits_large digits_nonempty)
  qed
qed

lemma nat_of_digits_append:
  "nat_of_digits (xs @ ys) = nat_of_digits xs * 10 ^ length ys + nat_of_digits ys"
proof (induction ys rule: rev_induct)
  case Nil
  then show ?case by (simp add: nat_of_digits_def)
next
  case (snoc y ys)
  have "nat_of_digits (xs @ ys @ [y]) = 10 * nat_of_digits (xs @ ys) + y"
    using nat_of_digits_snoc [of "xs @ ys" y] by simp
  with snoc show ?case by (simp add: nat_of_digits_snoc algebra_simps)
qed

lemma nat_of_digits_zeros: "nat_of_digits (replicate j 0) = 0"
proof (induction j)
  case 0
  then show ?case by (simp add: nat_of_digits_def)
next
  case (Suc j)
  have "replicate (Suc j) (0::nat) = replicate j 0 @ [0]"
    by (simp add: replicate_append_same)
  then show ?case using Suc by (simp only: nat_of_digits_snoc)
qed

lemma nat_of_digits_leading_zeros: "nat_of_digits (replicate j 0 @ ds) = nat_of_digits ds"
  by (simp add: nat_of_digits_append nat_of_digits_zeros)

lemma nat_of_digits_trailing_zeros: "nat_of_digits (ds @ replicate j 0) = nat_of_digits ds * 10 ^ j"
  by (simp add: nat_of_digits_append nat_of_digits_zeros)

lemma strip_zeros_power:
  "0 < c \<Longrightarrow> c mod 10 \<noteq> 0 \<Longrightarrow> strip_zeros (c * 10 ^ j) e = (c, e + int j)"
proof (induction j arbitrary: e)
  case 0
  then show ?case by (simp add: strip_zeros.simps)
next
  case (Suc j)
  have "strip_zeros (c * 10 ^ Suc j) e = strip_zeros (c * 10 ^ j) (e + 1)"
    using Suc.prems by (subst strip_zeros.simps) simp
  with Suc show ?case by simp
qed

lemma strip_zeros_canonical: "0 < c \<Longrightarrow> c mod 10 \<noteq> 0 \<Longrightarrow> strip_zeros c e = (c, e)"
  using strip_zeros_power [of c 0 e] by simp

lemma digit_char_cases:
  "d < 10 \<Longrightarrow> d = 0 \<or> d = 1 \<or> d = 2 \<or> d = 3 \<or> d = 4 \<or> d = 5 \<or> d = 6 \<or> d = 7 \<or> d = 8 \<or> d = (9::nat)"
  by arith

lemma digit_char_props:
  assumes "d < 10"
  shows "is_digit (digit_char d)" and "digit_val (digit_char d) = d"
    and "digit_char d \<noteq> 0x2E" and "digit_char d \<noteq> 0x65" and "digit_char d \<noteq> 0x45"
    and "digit_char d \<noteq> 0x2D" and "(digit_char d = 0x30) = (d = 0)"
  using digit_char_cases [OF assms]
  by (auto simp: is_digit_def digit_val_def digit_char_def)

subsection \<open>Scanning digits\<close>

lemma digit_chars_simps:
  "digit_chars [] = []" "digit_chars (d # ds) = digit_char d # digit_chars ds"
  "digit_chars (xs @ ys) = digit_chars xs @ digit_chars ys"
  by (simp_all add: digit_chars_def)

lemma zeros_as_digit_chars: "replicate j 0x30 = digit_chars (replicate j 0)"
  by (simp add: digit_chars_def digit_char_def)

lemma digit_vals_of_digit_chars: "\<forall>d \<in> set ds. d < 10 \<Longrightarrow> map digit_val (digit_chars ds) = ds"
  by (induction ds) (simp_all add: digit_chars_def digit_char_props)

lemma scan_digit_chars:
  assumes "\<forall>d \<in> set ds. d < 10" and "takeWhile is_digit t = []"
  shows "takeWhile is_digit (digit_chars ds @ t) = digit_chars ds"
    and "dropWhile is_digit (digit_chars ds @ t) = t"
proof -
  from assms(1) have all: "\<forall>c \<in> set (digit_chars ds). is_digit c"
    by (auto simp: digit_chars_def digit_char_props)
  from assms(2) have "dropWhile is_digit t = t"
    using takeWhile_dropWhile_id [of is_digit t] by simp
  with all assms(2) show "takeWhile is_digit (digit_chars ds @ t) = digit_chars ds"
    and "dropWhile is_digit (digit_chars ds @ t) = t"
    by (simp_all add: takeWhile_append2 dropWhile_append2)
qed

lemma ends_number_scan:
  assumes "ends_number r"
  shows "takeWhile is_digit r = []" and "parse_fraction r = Some ([], r)"
    and "parse_exponent r = Some (0, r)"
  using assms
  by (cases r; simp add: ends_number_def parse_fraction_def parse_exponent_def)+

lemma parse_fraction_digits:
  assumes "fp \<noteq> []" and "\<forall>d \<in> set fp. d < 10" and "takeWhile is_digit t = []"
  shows "parse_fraction (0x2E # digit_chars fp @ t) = Some (digit_chars fp, t)"
  using assms scan_digit_chars [OF assms(2,3)]
  by (simp add: parse_fraction_def digit_chars_def)

lemma parse_fraction_none:
  "parse_fraction (0x65 # t) = Some ([], 0x65 # t)"
  by (simp add: parse_fraction_def)

lemma parse_exponent_digits_digits:
  assumes "takeWhile is_digit r = []"
  shows "parse_exponent_digits sg (digit_chars (digits x) @ r) = Some (sg * int x, r)"
proof -
  have lt: "\<forall>d \<in> set (digits x). d < 10" by (simp add: digits_lt10)
  have ne: "digit_chars (digits x) \<noteq> []" by (simp add: digit_chars_def digits_nonempty)
  from scan_digit_chars [OF lt assms] ne lt show ?thesis
    by (simp add: parse_exponent_digits_def digit_vals_of_digit_chars nat_of_digits_digits)
qed

lemma parse_exponent_signed:
  assumes "takeWhile is_digit r = []"
  shows "parse_exponent (0x65 # (if 0 \<le> x then 0x2B else 0x2D) # digit_chars (digits (nat \<bar>x\<bar>)) @ r)
         = Some (x, r)"
  using parse_exponent_digits_digits [OF assms]
  by (simp add: parse_exponent_def)

lemma parse_unsigned_assemble:
  assumes "takeWhile is_digit s = digit_chars ip" and "ip \<noteq> []" and "\<forall>d \<in> set ip. d < 10"
    and "hd ip \<noteq> 0 \<or> length ip = 1"
    and "parse_fraction (dropWhile is_digit s) = Some (digit_chars fp, s')"
    and "\<forall>d \<in> set fp. d < 10"
    and "parse_exponent s' = Some (ex, s'')"
  shows "parse_unsigned neg s =
           Some (decimal neg (nat_of_digits (ip @ fp)) (ex - int (length fp)), s'')"
proof -
  from assms(2,3) have "hd (digit_chars ip) = 0x30 \<longleftrightarrow> hd ip = 0"
    by (cases ip) (simp_all add: digit_chars_def digit_char_props)
  with assms(4) have ok: "\<not> (hd (digit_chars ip) = 0x30 \<and> 1 < length (digit_chars ip))"
    by (auto simp: digit_chars_def)
  from assms(3,6) have "map digit_val (digit_chars ip @ digit_chars fp) = ip @ fp"
    by (simp add: digit_vals_of_digit_chars)
  with ok assms(1,2,5,7) show ?thesis
    by (simp add: parse_unsigned_def Let_def digit_chars_def)
qed

subsection \<open>Printing and reading a number\<close>

lemma decimal_canonical:
  "0 < c \<Longrightarrow> c mod 10 \<noteq> 0 \<Longrightarrow>
   decimal neg c e = Num (if neg then - int c else int c) e"
  by (simp add: decimal_def strip_zeros_canonical)

lemma decimal_zero: "decimal neg 0 e = Num 0 0"
  by (simp add: decimal_def strip_zeros.simps)

lemma parse_unsigned_toString:
  assumes c: "0 < c" "c mod 10 \<noteq> 0" and r: "ends_number r"
  shows "parse_unsigned neg (unsigned_toString c e @ r) =
           Some (Num (if neg then - int c else int c) e, r)"
proof -
  define ds where "ds = digits c"
  define k where "k = int (length ds)"
  define n where "n = e + k"
  have lt: "\<forall>d \<in> set ds. d < 10" by (simp add: ds_def digits_lt10)
  have ne: "ds \<noteq> []" by (simp add: ds_def digits_nonempty)
  have hd: "hd ds \<noteq> 0" using c(1) by (simp add: ds_def hd_digits)
  have val: "nat_of_digits ds = c" by (simp add: ds_def nat_of_digits_digits)
  have kpos: "0 < k" using ne by (simp add: k_def)
  note tail = ends_number_scan [OF r]
  have can: "decimal neg c x = Num (if neg then - int c else int c) x" for x
    using c by (rule decimal_canonical)
  have layout: "unsigned_toString c e =
     (if k \<le> n \<and> n \<le> 21 then digit_chars ds @ replicate (nat (n - k)) 0x30
      else if 0 < n \<and> n \<le> 21 then
        digit_chars (take (nat n) ds) @ [0x2E] @ digit_chars (drop (nat n) ds)
      else if - 6 < n \<and> n \<le> 0 then
        [0x30, 0x2E] @ replicate (nat (- n)) 0x30 @ digit_chars ds
      else
        (if length ds = 1 then digit_chars ds
         else digit_chars [hd ds] @ [0x2E] @ digit_chars (tl ds))
        @ [0x65] @ [if 0 \<le> n - 1 then 0x2B else 0x2D] @ digit_chars (digits (nat \<bar>n - 1\<bar>)))"
    unfolding unsigned_toString_def Let_def ds_def k_def n_def by (rule refl)
  consider (plain) "k \<le> n" "n \<le> 21"
    | (point) "\<not> k \<le> n" "0 < n" "n \<le> 21"
    | (small) "- 6 < n" "n \<le> 0"
    | (expo) "21 < n \<or> n \<le> - 6"
    by linarith
  then show ?thesis
  proof cases
    case plain
    define j where "j = nat (n - k)"
    have shape: "unsigned_toString c e @ r = digit_chars (ds @ replicate j 0) @ r"
      using plain by (simp add: layout j_def zeros_as_digit_chars digit_chars_simps)
    have lt': "\<forall>d \<in> set (ds @ replicate j 0). d < 10" using lt by auto
    have "parse_unsigned neg (digit_chars (ds @ replicate j 0) @ r) =
        Some (decimal neg (nat_of_digits ((ds @ replicate j 0) @ [])) (0 - int (length ([]::nat list))), r)"
    proof (rule parse_unsigned_assemble)
      show "takeWhile is_digit (digit_chars (ds @ replicate j 0) @ r) = digit_chars (ds @ replicate j 0)"
        using lt' tail(1) by (rule scan_digit_chars)
      show "ds @ replicate j 0 \<noteq> []" using ne by simp
      show "\<forall>d \<in> set (ds @ replicate j 0). d < 10" by (rule lt')
      show "hd (ds @ replicate j 0) \<noteq> 0 \<or> length (ds @ replicate j 0) = 1"
        using ne hd by simp
      show "parse_fraction (dropWhile is_digit (digit_chars (ds @ replicate j 0) @ r)) =
          Some (digit_chars [], r)"
        using scan_digit_chars(2) [OF lt' tail(1)] tail(2) by (simp add: digit_chars_simps)
      show "\<forall>d \<in> set ([]::nat list). d < 10" by simp
      show "parse_exponent r = Some (0, r)" by (rule tail(3))
    qed
    moreover have "decimal neg (nat_of_digits (ds @ replicate j 0)) 0 = decimal neg c (int j)"
      using c by (simp add: nat_of_digits_trailing_zeros val decimal_def strip_zeros_power
          strip_zeros_canonical)
    moreover have "int j = e" using plain by (simp add: j_def n_def)
    ultimately show ?thesis by (simp add: shape can)
  next
    case point
    define i where "i = nat n"
    have i: "0 < i" "i < length ds" using point by (simp_all add: i_def k_def)
    have shape: "unsigned_toString c e @ r =
        digit_chars (take i ds) @ 0x2E # digit_chars (drop i ds) @ r"
      using point by (simp add: layout i_def)
    have lt1: "\<forall>d \<in> set (take i ds). d < 10" using lt by (auto dest: in_set_takeD)
    have lt2: "\<forall>d \<in> set (drop i ds). d < 10" using lt by (auto dest: in_set_dropD)
    have stop: "takeWhile is_digit (0x2E # digit_chars (drop i ds) @ r) = []"
      by (simp add: is_digit_def)
    have "parse_unsigned neg (digit_chars (take i ds) @ 0x2E # digit_chars (drop i ds) @ r) =
        Some (decimal neg (nat_of_digits (take i ds @ drop i ds))
                (0 - int (length (drop i ds))), r)"
    proof (rule parse_unsigned_assemble)
      show "takeWhile is_digit (digit_chars (take i ds) @ 0x2E # digit_chars (drop i ds) @ r) =
          digit_chars (take i ds)"
        using lt1 stop by (rule scan_digit_chars)
      show "take i ds \<noteq> []" using i ne by simp
      show "\<forall>d \<in> set (take i ds). d < 10" by (rule lt1)
      show "hd (take i ds) \<noteq> 0 \<or> length (take i ds) = 1" using i hd by simp
      show "parse_fraction (dropWhile is_digit
            (digit_chars (take i ds) @ 0x2E # digit_chars (drop i ds) @ r)) =
          Some (digit_chars (drop i ds), r)"
        using scan_digit_chars(2) [OF lt1 stop] parse_fraction_digits [OF _ lt2 tail(1)] i
        by simp
      show "\<forall>d \<in> set (drop i ds). d < 10" by (rule lt2)
      show "parse_exponent r = Some (0, r)" by (rule tail(3))
    qed
    moreover have "0 - int (length (drop i ds)) = e"
      using point i by (simp add: i_def n_def k_def)
    ultimately show ?thesis by (simp add: shape can val)
  next
    case small
    define j where "j = nat (- n)"
    have shape: "unsigned_toString c e @ r =
        digit_chars [0] @ 0x2E # digit_chars (replicate j 0 @ ds) @ r"
      using small kpos
      by (simp add: layout j_def zeros_as_digit_chars digit_chars_simps digit_char_def)
    have lt2: "\<forall>d \<in> set (replicate j 0 @ ds). d < 10" using lt by auto
    have stop: "takeWhile is_digit (0x2E # digit_chars (replicate j 0 @ ds) @ r) = []"
      by (simp add: is_digit_def)
    have lt1: "\<forall>d \<in> set [0::nat]. d < 10" by simp
    have "parse_unsigned neg (digit_chars [0] @ 0x2E # digit_chars (replicate j 0 @ ds) @ r) =
        Some (decimal neg (nat_of_digits ([0] @ (replicate j 0 @ ds)))
                (0 - int (length (replicate j 0 @ ds))), r)"
    proof (rule parse_unsigned_assemble)
      show "takeWhile is_digit (digit_chars [0] @ 0x2E # digit_chars (replicate j 0 @ ds) @ r) =
          digit_chars [0]"
        using lt1 stop by (rule scan_digit_chars)
      show "[0::nat] \<noteq> []" by simp
      show "\<forall>d \<in> set [0::nat]. d < 10" by simp
      show "hd [0::nat] \<noteq> 0 \<or> length [0::nat] = 1" by simp
      show "parse_fraction (dropWhile is_digit
            (digit_chars [0] @ 0x2E # digit_chars (replicate j 0 @ ds) @ r)) =
          Some (digit_chars (replicate j 0 @ ds), r)"
        using scan_digit_chars(2) [OF lt1 stop] parse_fraction_digits [OF _ lt2 tail(1)] ne
        by simp
      show "\<forall>d \<in> set (replicate j 0 @ ds). d < 10" by (rule lt2)
      show "parse_exponent r = Some (0, r)" by (rule tail(3))
    qed
    moreover have "nat_of_digits ([0] @ (replicate j 0 @ ds)) = c"
      using nat_of_digits_leading_zeros [of "Suc j" ds] by (simp add: val)
    moreover have "0 - int (length (replicate j 0 @ ds)) = e"
      using small by (simp add: j_def n_def k_def)
    ultimately show ?thesis by (simp add: shape can)
  next
    case expo
    define x where "x = n - 1"
    define tail_text where
      "tail_text = 0x65 # (if 0 \<le> x then 0x2B else 0x2D) # digit_chars (digits (nat \<bar>x\<bar>)) @ r"
    have ex: "parse_exponent tail_text = Some (x, r)"
      unfolding tail_text_def using tail(1) by (rule parse_exponent_signed)
    have stop: "takeWhile is_digit tail_text = []"
      by (simp add: tail_text_def is_digit_def)
    have nofrac: "parse_fraction tail_text = Some (digit_chars [], tail_text)"
      by (simp add: tail_text_def parse_fraction_def digit_chars_simps)
    show ?thesis
    proof (cases "length ds = 1")
      case True
      have shape: "unsigned_toString c e @ r = digit_chars ds @ tail_text"
        using expo True kpos by (auto simp add: layout x_def tail_text_def)
      have "parse_unsigned neg (digit_chars ds @ tail_text) =
          Some (decimal neg (nat_of_digits (ds @ [])) (x - int (length ([]::nat list))), r)"
      proof (rule parse_unsigned_assemble)
        show "takeWhile is_digit (digit_chars ds @ tail_text) = digit_chars ds"
          using lt stop by (rule scan_digit_chars)
        show "ds \<noteq> []" by (rule ne)
        show "\<forall>d \<in> set ds. d < 10" by (rule lt)
        show "hd ds \<noteq> 0 \<or> length ds = 1" using hd by simp
        show "parse_fraction (dropWhile is_digit (digit_chars ds @ tail_text)) =
            Some (digit_chars [], tail_text)"
          using scan_digit_chars(2) [OF lt stop] nofrac by simp
        show "\<forall>d \<in> set ([]::nat list). d < 10" by simp
        show "parse_exponent tail_text = Some (x, r)" by (rule ex)
      qed
      moreover have "x = e" using True by (simp add: x_def n_def k_def)
      ultimately show ?thesis by (simp add: shape can val)
    next
      case False
      with ne have len: "1 < length ds" by (cases ds) auto
      have split: "ds = hd ds # tl ds" using ne by simp
      have shape: "unsigned_toString c e @ r =
          digit_chars [hd ds] @ 0x2E # digit_chars (tl ds) @ tail_text"
        using expo False kpos by (auto simp add: layout x_def tail_text_def)
      have lt1: "\<forall>d \<in> set [hd ds]. d < 10" using lt ne by simp
      have lt2: "\<forall>d \<in> set (tl ds). d < 10" using lt ne by (auto dest: list.set_sel(2))
      have tlne: "tl ds \<noteq> []" using len by (cases ds) auto
      have stop': "takeWhile is_digit (0x2E # digit_chars (tl ds) @ tail_text) = []"
        by (simp add: is_digit_def)
      have "parse_unsigned neg (digit_chars [hd ds] @ 0x2E # digit_chars (tl ds) @ tail_text) =
          Some (decimal neg (nat_of_digits ([hd ds] @ tl ds)) (x - int (length (tl ds))), r)"
      proof (rule parse_unsigned_assemble)
        show "takeWhile is_digit (digit_chars [hd ds] @ 0x2E # digit_chars (tl ds) @ tail_text) =
            digit_chars [hd ds]"
          using lt1 stop' by (rule scan_digit_chars)
        show "[hd ds] \<noteq> []" by simp
        show "\<forall>d \<in> set [hd ds]. d < 10" by (rule lt1)
        show "hd [hd ds] \<noteq> 0 \<or> length [hd ds] = 1" by simp
        show "parse_fraction (dropWhile is_digit
              (digit_chars [hd ds] @ 0x2E # digit_chars (tl ds) @ tail_text)) =
            Some (digit_chars (tl ds), tail_text)"
          using scan_digit_chars(2) [OF lt1 stop'] parse_fraction_digits [OF tlne lt2 stop]
          by simp
        show "\<forall>d \<in> set (tl ds). d < 10" by (rule lt2)
        show "parse_exponent tail_text = Some (x, r)" by (rule ex)
      qed
      moreover have "[hd ds] @ tl ds = ds" using ne by simp
      moreover have "x - int (length (tl ds)) = e"
        using ne by (cases ds) (simp_all add: x_def n_def k_def)
      ultimately show ?thesis by (simp add: shape can val)
    qed
  qed
qed

lemma canonical_abs:
  fixes m :: int
  assumes "m \<noteq> 0" and "m mod 10 \<noteq> 0"
  shows "0 < nat \<bar>m\<bar>" and "nat \<bar>m\<bar> mod 10 \<noteq> 0"
proof -
  show "0 < nat \<bar>m\<bar>" using assms(1) by simp
  have "nat \<bar>m\<bar> mod 10 = nat (\<bar>m\<bar> mod 10)"
    by (simp add: nat_mod_distrib)
  moreover have "\<bar>m\<bar> mod 10 \<noteq> 0"
    using assms(2) by (simp add: abs_if mod_eq_0_iff_dvd)
  moreover have "0 \<le> \<bar>m\<bar> mod 10" by simp
  ultimately have "0 < \<bar>m\<bar> mod 10" by linarith
  then have "0 < nat (\<bar>m\<bar> mod 10)" by (simp only: zero_less_nat_eq)
  then show "nat \<bar>m\<bar> mod 10 \<noteq> 0"
    by (simp add: nat_mod_distrib)
qed

lemma parse_number_unsigned:
  assumes "parse_unsigned False s = Some y"
  shows "parse_number s = Some y"
proof (cases s)
  case Nil
  with assms show ?thesis by (simp add: parse_unsigned_def)
next
  case (Cons c cs)
  show ?thesis
  proof (cases "c = 0x2D")
    case True
    with Cons have "takeWhile is_digit s = []" by (simp add: is_digit_def)
    with assms show ?thesis by (simp add: parse_unsigned_def)
  next
    case False
    with Cons assms show ?thesis by (simp add: parse_number_def)
  qed
qed

lemma parse_number_toString:
  assumes "wf_number x" and "ends_number r"
  shows "parse_number (Number_toString x @ r) = Some (x, r)"
proof (cases x)
  case (Num m e)
  consider (zero) "m = 0" | (pos) "0 < m" | (neg) "m < 0" by linarith
  then show ?thesis
  proof cases
    case zero
    with Num assms(1) have e: "e = 0" by simp
    have lt: "\<forall>d \<in> set [0::nat]. d < 10" by simp
    note tail = ends_number_scan [OF assms(2)]
    have "parse_unsigned False (digit_chars [0] @ r) =
        Some (decimal False (nat_of_digits ([0] @ [])) (0 - int (length ([]::nat list))), r)"
    proof (rule parse_unsigned_assemble)
      show "takeWhile is_digit (digit_chars [0] @ r) = digit_chars [0]"
        using lt tail(1) by (rule scan_digit_chars)
      show "parse_fraction (dropWhile is_digit (digit_chars [0] @ r)) = Some (digit_chars [], r)"
        using scan_digit_chars(2) [OF lt tail(1)] tail(2) by (simp add: digit_chars_simps)
      show "parse_exponent r = Some (0, r)" by (rule tail(3))
    qed simp_all
    then show ?thesis
      using zero e Num
      by (simp add: Number_toString.simps parse_number_def digit_chars_simps digit_char_def
          nat_of_digits_def decimal_zero)
  next
    case pos
    with Num assms(1) have c: "0 < nat \<bar>m\<bar>" "nat \<bar>m\<bar> mod 10 \<noteq> 0"
      using canonical_abs [of m] by auto
    from parse_unsigned_toString [OF c assms(2), of False e] pos
    have "parse_unsigned False (unsigned_toString (nat \<bar>m\<bar>) e @ r) = Some (Num m e, r)"
      by simp
    then have "parse_number (unsigned_toString (nat \<bar>m\<bar>) e @ r) = Some (Num m e, r)"
      by (rule parse_number_unsigned)
    with pos Num show ?thesis
      by (simp add: Number_toString.simps)
  next
    case neg
    with Num assms(1) have c: "0 < nat \<bar>m\<bar>" "nat \<bar>m\<bar> mod 10 \<noteq> 0"
      using canonical_abs [of m] by auto
    from parse_unsigned_toString [OF c assms(2), of True e] neg Num show ?thesis
      by (simp add: Number_toString.simps parse_number_def)
  qed
qed

lemma ends_number_Nil: "ends_number []"
  by (simp add: ends_number_def)

lemma Number_toString_inj:
  assumes "wf_number x" and "wf_number y" and "Number_toString x = Number_toString y"
  shows "x = y"
  using parse_number_toString [OF assms(1) ends_number_Nil]
    parse_number_toString [OF assms(2) ends_number_Nil] assms(3)
  by simp

subsection \<open>Quoting and reading a string\<close>

lemma hex_digit_cases:
  "d < 16 \<Longrightarrow> d = 0 \<or> d = 1 \<or> d = 2 \<or> d = 3 \<or> d = 4 \<or> d = 5 \<or> d = 6 \<or> d = 7 \<or>
     d = 8 \<or> d = 9 \<or> d = 10 \<or> d = 11 \<or> d = 12 \<or> d = 13 \<or> d = 14 \<or> d = (15::nat)"
  by arith

lemma hex_val_hex_char: "d < 16 \<Longrightarrow> hex_val (hex_char d) = Some d"
proof -
  assume "d < 16"
  then consider "d = 0" | "d = 1" | "d = 2" | "d = 3" | "d = 4" | "d = 5" | "d = 6" | "d = 7"
    | "d = 8" | "d = 9" | "d = 10" | "d = 11" | "d = 12" | "d = 13" | "d = 14" | "d = 15"
    using hex_digit_cases [of d] by blast
  then show ?thesis
    by cases (simp_all add: hex_val_def hex_char_def)
qed

lemma hex_positions:
  fixes u :: nat
  shows "((u div 4096 * 16 + u div 256 mod 16) * 16 + u div 16 mod 16) * 16 + u mod 16 = u"
proof -
  have "u div 4096 = u div 256 div 16" and "u div 256 = u div 16 div 16"
    by (simp_all add: div_mult2_eq [symmetric])
  then have a: "u div 4096 * 16 + u div 256 mod 16 = u div 256"
    and b: "u div 256 * 16 + u div 16 mod 16 = u div 16"
    by simp_all
  have c: "u div 16 * 16 + u mod 16 = u"
    by simp
  show ?thesis by (simp only: a b c)
qed

lemma hex4_UnicodeEscape:
  "hex4 (hex_char (unat c div 4096)) (hex_char (unat c div 256 mod 16))
        (hex_char (unat c div 16 mod 16)) (hex_char (unat c mod 16)) = Some c"
proof -
  define u where "u = unat c"
  have "u < 65536" using unsigned_less [of c, where ?'a = nat] by (simp add: u_def)
  then have "u div 4096 < 16" by simp
  then have hv: "hex_val (hex_char (u div 4096)) = Some (u div 4096)"
    "hex_val (hex_char (u div 256 mod 16)) = Some (u div 256 mod 16)"
    "hex_val (hex_char (u div 16 mod 16)) = Some (u div 16 mod 16)"
    "hex_val (hex_char (u mod 16)) = Some (u mod 16)"
    by (simp_all add: hex_val_hex_char)
  have "(of_nat (((u div 4096 * 16 + u div 256 mod 16) * 16 + u div 16 mod 16) * 16 + u mod 16)
      :: 16 word) = of_nat u"
    by (simp only: hex_positions)
  also have "\<dots> = c" by (simp add: u_def)
  finally show ?thesis
    unfolding u_def [symmetric] hex4_def hv by (simp only: prod.case option.case)
qed

lemma parse_UnicodeEscape:
  "parse_string_body (UnicodeEscape c @ t) = cons_unit c (parse_string_body t)"
  by (simp add: UnicodeEscape_def hex4_UnicodeEscape)

lemma parse_raw_unit:
  "c \<noteq> 0x22 \<Longrightarrow> c \<noteq> 0x5C \<Longrightarrow> \<not> c < 0x20 \<Longrightarrow>
   parse_string_body (c # t) = cons_unit c (parse_string_body t)"
  by simp

lemma parse_quote_unit:
  "parse_string_body (quote_unit c @ t) = cons_unit c (parse_string_body t)"
  by (simp add: quote_unit_def parse_UnicodeEscape simple_escape_def)

lemma surrogate_is_raw:
  assumes "is_leading_surrogate c \<or> is_trailing_surrogate c"
  shows "c \<noteq> 0x22" and "c \<noteq> 0x5C" and "\<not> c < 0x20"
  using assms
  by (auto simp: is_leading_surrogate_def is_trailing_surrogate_def word_le_nat_alt
      word_less_nat_alt)

lemma parse_quote_units:
  "parse_string_body (quote_units s @ 0x22 # r) = Some (s, r)"
proof (induction s rule: quote_units.induct)
  case 1
  show ?case by simp
next
  case (2 c)
  have "parse_string_body (quote_unit c @ 0x22 # r) = cons_unit c (parse_string_body (0x22 # r))"
    by (rule parse_quote_unit)
  then show ?case by simp
next
  case (3 c d cs)
  show ?case
  proof (cases "is_leading_surrogate c \<and> is_trailing_surrogate d")
    case True
    then have raw: "c \<noteq> 0x22" "c \<noteq> 0x5C" "\<not> c < 0x20" "d \<noteq> 0x22" "d \<noteq> 0x5C" "\<not> d < 0x20"
      using surrogate_is_raw [of c] surrogate_is_raw [of d] by blast+
    then have "parse_string_body (c # d # quote_units cs @ 0x22 # r) =
        cons_unit c (cons_unit d (parse_string_body (quote_units cs @ 0x22 # r)))"
      by simp
    with True 3(1) show ?thesis by simp
  next
    case False
    from False have unfold: "quote_units (c # d # cs) = quote_unit c @ quote_units (d # cs)"
      by (simp only: quote_units.simps if_False)
    have "parse_string_body (quote_unit c @ quote_units (d # cs) @ 0x22 # r) =
        cons_unit c (parse_string_body (quote_units (d # cs) @ 0x22 # r))"
      by (rule parse_quote_unit)
    also have "\<dots> = Some (c # d # cs, r)"
      using 3(2) [OF False] by (simp only: cons_unit.simps)
    finally show ?thesis
      by (simp only: unfold append_assoc)
  qed
qed

lemma parse_QuoteJSONString:
  "\<exists>t. QuoteJSONString s @ r = 0x22 # t \<and> parse_string_body t = Some (s, r)"
  by (simp add: QuoteJSONString_def parse_quote_units)

subsection \<open>Reading one value\<close>

lemma skip_ws_start: "starts_value s \<Longrightarrow> skip_ws s = s"
  by (cases s) (simp_all add: starts_value_def skip_ws_def)

lemma skip_ws_mark:
  "skip_ws (0x5D # t) = 0x5D # t" "skip_ws (0x7D # t) = 0x7D # t"
  "skip_ws (0x2C # t) = 0x2C # t" "skip_ws (0x3A # t) = 0x3A # t" "skip_ws [] = []"
  by (simp_all add: skip_ws_def is_json_ws_def)

lemma ends_number_mark:
  "ends_number (0x5D # t)" "ends_number (0x7D # t)" "ends_number (0x2C # t)"
  by (simp_all add: ends_number_def is_digit_def)

lemma parse_number_first:
  assumes "parse_number s = Some y"
  shows "\<exists>c t. s = c # t \<and> (c = 0x2D \<or> is_digit c)"
proof (cases s)
  case Nil
  with assms show ?thesis by (simp add: parse_number_def)
next
  case (Cons c t)
  show ?thesis
  proof (cases "c = 0x2D")
    case True
    with Cons show ?thesis by simp
  next
    case False
    with Cons assms have "parse_unsigned False (c # t) = Some y"
      by (simp add: parse_number_def)
    then have "takeWhile is_digit (c # t) \<noteq> []"
      by (auto simp: parse_unsigned_def Let_def split: if_splits)
    then have "is_digit c" by (auto split: if_splits)
    with Cons show ?thesis by simp
  qed
qed

lemma number_start:
  assumes "c = 0x2D \<or> is_digit c"
  shows "c \<noteq> 0x5B" "c \<noteq> 0x7B" "c \<noteq> 0x22" "c \<noteq> 0x6E" "c \<noteq> 0x74" "c \<noteq> 0x66"
    "c \<noteq> 0x5D" "c \<noteq> 0x7D" "\<not> is_json_ws c"
  using assms by (auto simp: is_digit_def is_json_ws_def word_le_nat_alt)

lemma parse_value_number:
  assumes "parse_number s = Some (x, r)"
  shows "parse_value (Suc n) s = Ok (JNumber x, r)"
proof -
  from parse_number_first [OF assms] obtain c t where s: "s = c # t" "c = 0x2D \<or> is_digit c"
    by blast
  from number_start [OF s(2)] assms show ?thesis
    by (simp add: parse_value.simps(2) s(1) starts_with_def js_def)
qed

lemma parse_value_literal:
  "parse_value (Suc n) (js ''null'' @ r) = Ok (JNull, r)"
  "parse_value (Suc n) (js ''true'' @ r) = Ok (JBool True, r)"
  "parse_value (Suc n) (js ''false'' @ r) = Ok (JBool False, r)"
  by (simp_all add: parse_value.simps(2) starts_with_def js_def)

lemma parse_value_string:
  "parse_value (Suc n) (QuoteJSONString s @ r) = Ok (JString s, r)"
  by (simp add: parse_value.simps(2) QuoteJSONString_def parse_quote_units)

lemma starts_value_number:
  assumes "wf_number x"
  shows "starts_value (Number_toString x @ t)"
proof -
  from parse_number_toString [OF assms ends_number_Nil] have "parse_number (Number_toString x) = Some (x, [])"
    by simp
  from parse_number_first [OF this] obtain c u where
    "Number_toString x = c # u" "c = 0x2D \<or> is_digit c"
    by blast
  with number_start [of c] show ?thesis by (simp add: starts_value_def)
qed

lemma starts_value_Serialize:
  "wf_value v \<Longrightarrow> starts_value (SerializeJSONProperty v @ t)"
  by (cases v)
    (simp_all add: starts_value_number, simp_all add: starts_value_def js_def is_json_ws_def
      QuoteJSONString_def)

lemma starts_value_elements:
  "vs \<noteq> [] \<Longrightarrow> wf_values vs \<Longrightarrow> starts_value (SerializeJSONArray vs @ t)"
  using starts_value_Serialize by (cases vs) simp_all

lemma starts_value_members:
  "ms \<noteq> [] \<Longrightarrow> \<exists>u. SerializeJSONObject ms @ t = 0x22 # u"
  by (cases ms) (simp_all add: QuoteJSONString_def)

lemma Serialize_nonempty:
  assumes "wf_value v"
  shows "1 \<le> length (SerializeJSONProperty v)"
proof -
  from starts_value_Serialize [OF assms, of "[]"] have "SerializeJSONProperty v \<noteq> []"
    by (auto simp: starts_value_def)
  then show ?thesis by (cases "SerializeJSONProperty v") simp_all
qed

subsection \<open>Reading what was printed\<close>

lemma CreateDataProperty_fresh:
  "k \<notin> fst ` set obj \<Longrightarrow> CreateDataProperty k v obj = obj @ [(k, v)]"
  by (induction obj) auto

lemma object_of_members_distinct_aux:
  "distinct (map fst (obj @ ms)) \<Longrightarrow>
   foldl (\<lambda>obj m. CreateDataProperty (fst m) (snd m) obj) obj ms = obj @ ms"
proof (induction ms arbitrary: obj)
  case Nil
  then show ?case by simp
next
  case (Cons m ms)
  from Cons.prems have fresh: "fst m \<notin> fst ` set obj" by auto
  from Cons.prems have "distinct (map fst ((obj @ [m]) @ ms))" by simp
  from Cons.IH [OF this] fresh show ?case
    by (simp add: CreateDataProperty_fresh)
qed

lemma object_of_members_distinct: "distinct (map fst ms) \<Longrightarrow> object_of_members ms = ms"
  using object_of_members_distinct_aux [of "[]" ms] by (simp add: object_of_members_def)

lemma parse_value_array_empty: "parse_value (Suc n) (0x5B # 0x5D # r) = Ok (JArray [], r)"
  by (simp add: parse_value.simps(2) skip_ws_mark)

lemma parse_value_array_elements:
  assumes "starts_value s" and "parse_elements n s = Ok (vs, r)"
  shows "parse_value (Suc n) (0x5B # s) = Ok (JArray vs, r)"
proof -
  from assms(1) obtain d ds where s: "s = d # ds" "d \<noteq> 0x5D"
    by (cases s) (auto simp: starts_value_def)
  from assms(1) have "skip_ws s = s" by (rule skip_ws_start)
  with s assms(2) show ?thesis
    by (simp add: parse_value.simps(2))
qed

lemma parse_value_object_empty: "parse_value (Suc n) (0x7B # 0x7D # r) = Ok (JObject [], r)"
  by (simp add: parse_value.simps(2) skip_ws_mark)

lemma parse_value_object_members:
  assumes "starts_value s" and "parse_members n s = Ok (ms, r)"
  shows "parse_value (Suc n) (0x7B # s) = Ok (JObject (object_of_members ms), r)"
proof -
  from assms(1) obtain d ds where s: "s = d # ds" "d \<noteq> 0x7D"
    by (cases s) (auto simp: starts_value_def)
  from assms(1) have "skip_ws s = s" by (rule skip_ws_start)
  with s assms(2) show ?thesis
    by (simp add: parse_value.simps(2))
qed

lemma parse_elements_last:
  "parse_value n s = Ok (v, 0x5D # r) \<Longrightarrow> parse_elements (Suc n) s = Ok ([v], r)"
  by (simp add: parse_elements.simps(2) skip_ws_mark)

lemma parse_elements_more:
  assumes "parse_value n s = Ok (v, 0x2C # t)" and "starts_value t"
    and "parse_elements n t = Ok (vs, r)"
  shows "parse_elements (Suc n) s = Ok (v # vs, r)"
  using assms by (simp add: parse_elements.simps(2) skip_ws_mark skip_ws_start)

lemma parse_members_last:
  assumes "parse_string_body qs = Some (k, 0x3A # t)" and "starts_value t"
    and "parse_value n t = Ok (v, 0x7D # r)"
  shows "parse_members (Suc n) (0x22 # qs) = Ok ([(k, v)], r)"
  using assms by (simp add: parse_members.simps(2) skip_ws_mark skip_ws_start)

lemma parse_members_more:
  assumes "parse_string_body qs = Some (k, 0x3A # t)" and "starts_value t"
    and "parse_value n t = Ok (v, 0x2C # t')" and "starts_value t'"
    and "parse_members n t' = Ok (ms, r)"
  shows "parse_members (Suc n) (0x22 # qs) = Ok ((k, v) # ms, r)"
  using assms by (simp add: parse_members.simps(2) skip_ws_mark skip_ws_start)

lemma starts_value_quote: "starts_value (0x22 # u)"
  by (simp add: starts_value_def is_json_ws_def)

lemma parse_Serialize:
  shows "wf_value v \<Longrightarrow> ends_number r \<Longrightarrow> length (SerializeJSONProperty v) \<le> n \<Longrightarrow>
         parse_value n (SerializeJSONProperty v @ r) = Ok (v, r)"
    and "vs \<noteq> [] \<Longrightarrow> wf_values vs \<Longrightarrow> length (SerializeJSONArray vs) < n \<Longrightarrow>
         parse_elements n (SerializeJSONArray vs @ 0x5D # r) = Ok (vs, r)"
    and "ms \<noteq> [] \<Longrightarrow> wf_members ms \<Longrightarrow> length (SerializeJSONObject ms) < n \<Longrightarrow>
         parse_members n (SerializeJSONObject ms @ 0x7D # r) = Ok (ms, r)"
proof (induction v and vs and ms arbitrary: n r and n r and n r
    rule: SerializeJSONProperty_SerializeJSONArray_SerializeJSONObject.induct)
  case 1
  then obtain n' where "n = Suc n'" by (cases n) (simp_all add: js_def)
  then show ?case by (simp add: parse_value_literal)
next
  case (2 b)
  then obtain n' where "n = Suc n'" by (cases n) (simp_all add: js_def split: if_splits)
  then show ?case by (simp add: parse_value_literal)
next
  case (3 x)
  from Serialize_nonempty [OF 3(1)] 3(3) obtain n' where n: "n = Suc n'"
    by (cases n) simp_all
  from 3 have "parse_number (Number_toString x @ r) = Some (x, r)"
    by (simp add: parse_number_toString)
  then show ?case unfolding n by (simp add: parse_value_number)
next
  case (4 s)
  then obtain n' where "n = Suc n'" by (cases n) (simp_all add: QuoteJSONString_def)
  then show ?case by (simp add: parse_value_string)
next
  case (5 vs)
  from 5(4) obtain n' where n: "n = Suc n'" by (cases n) simp_all
  show ?case
  proof (cases "vs = []")
    case True
    then show ?thesis by (simp add: n parse_value_array_empty)
  next
    case False
    from 5(2) have wf: "wf_values vs" by simp
    from 5(4) have len: "length (SerializeJSONArray vs) < n'" by (simp add: n)
    have "parse_elements n' (SerializeJSONArray vs @ 0x5D # r) = Ok (vs, r)"
      using False wf len by (rule 5(1))
    with starts_value_elements [OF False wf]
    have "parse_value (Suc n') (0x5B # SerializeJSONArray vs @ 0x5D # r) = Ok (JArray vs, r)"
      by (rule parse_value_array_elements)
    then show ?thesis by (simp add: n)
  qed
next
  case (6 ms)
  from 6(4) obtain n' where n: "n = Suc n'" by (cases n) simp_all
  show ?case
  proof (cases "ms = []")
    case True
    then show ?thesis by (simp add: n parse_value_object_empty)
  next
    case False
    from 6(2) have wf: "wf_members ms" and dist: "distinct (map fst ms)" by simp_all
    from 6(4) have len: "length (SerializeJSONObject ms) < n'" by (simp add: n)
    have mem: "parse_members n' (SerializeJSONObject ms @ 0x7D # r) = Ok (ms, r)"
      using False wf len by (rule 6(1))
    from starts_value_members [OF False] obtain u where
      "SerializeJSONObject ms @ 0x7D # r = 0x22 # u" by blast
    then have "starts_value (SerializeJSONObject ms @ 0x7D # r)"
      by (simp add: starts_value_quote)
    from parse_value_object_members [OF this mem]
    show ?thesis by (simp add: n object_of_members_distinct [OF dist])
  qed
next
  case 7
  then show ?case by simp
next
  case (8 v vs)
  from 8(5) obtain n' where n: "n = Suc n'" by (cases n) simp_all
  from 8(4) have wfv: "wf_value v" and wfs: "wf_values vs" by simp_all
  show ?case
  proof (cases "vs = []")
    case True
    from 8(5) have "length (SerializeJSONProperty v) \<le> n'" by (simp add: n True)
    with wfv have "parse_value n' (SerializeJSONProperty v @ 0x5D # r) = Ok (v, 0x5D # r)"
      by (intro 8(1) ends_number_mark)
    then have "parse_elements (Suc n') (SerializeJSONProperty v @ 0x5D # r) = Ok ([v], r)"
      by (rule parse_elements_last)
    then show ?thesis by (simp add: n True)
  next
    case False
    from 8(5) False have len: "length (SerializeJSONProperty v) \<le> n'"
      "length (SerializeJSONArray vs) < n'"
      by (simp_all add: n)
    from wfv len(1)
    have one: "parse_value n' (SerializeJSONProperty v @ 0x2C # SerializeJSONArray vs @ 0x5D # r) =
        Ok (v, 0x2C # SerializeJSONArray vs @ 0x5D # r)"
      by (intro 8(1) ends_number_mark)
    have rest: "parse_elements n' (SerializeJSONArray vs @ 0x5D # r) = Ok (vs, r)"
      using False False wfs len(2) by (rule 8(2))
    from parse_elements_more [OF one starts_value_elements [OF False wfs] rest]
    show ?thesis by (simp add: n False)
  qed
next
  case 9
  then show ?case by simp
next
  case (10 m ms)
  from 10(5) obtain n' where n: "n = Suc n'" by (cases n) simp_all
  from 10(4) have wfv: "wf_value (snd m)" and wfs: "wf_members ms" by simp_all
  define k where "k = fst m"
  define v where "v = snd m"
  have m: "m = (k, v)" by (simp add: k_def v_def)
  from wfv have wfv': "wf_value v" by (simp add: v_def)
  note value_IH = 10(1) [folded v_def]
  show ?case
  proof (cases "ms = []")
    case True
    from 10(5) have "length (SerializeJSONProperty v) \<le> n'"
      by (simp add: n True m QuoteJSONString_def)
    with wfv' have val: "parse_value n' (SerializeJSONProperty v @ 0x7D # r) = Ok (v, 0x7D # r)"
      by (intro value_IH ends_number_mark)
    have key: "parse_string_body (quote_units k @ 0x22 # 0x3A # SerializeJSONProperty v @ 0x7D # r) =
        Some (k, 0x3A # SerializeJSONProperty v @ 0x7D # r)"
      by (rule parse_quote_units)
    from parse_members_last [OF key starts_value_Serialize [OF wfv'] val]
    show ?thesis by (simp add: n True m QuoteJSONString_def)
  next
    case False
    from 10(5) False have len: "length (SerializeJSONProperty v) \<le> n'"
      "length (SerializeJSONObject ms) < n'"
      by (simp_all add: n m QuoteJSONString_def)
    define t' where "t' = SerializeJSONObject ms @ 0x7D # r"
    from wfv' len(1) have val: "parse_value n' (SerializeJSONProperty v @ 0x2C # t') = Ok (v, 0x2C # t')"
      by (intro value_IH ends_number_mark)
    have key: "parse_string_body (quote_units k @ 0x22 # 0x3A # SerializeJSONProperty v @ 0x2C # t') =
        Some (k, 0x3A # SerializeJSONProperty v @ 0x2C # t')"
      by (rule parse_quote_units)
    have rest: "parse_members n' t' = Ok (ms, r)"
      unfolding t'_def using False False wfs len(2) by (rule 10(2))
    from starts_value_members [OF False] obtain u where "t' = 0x22 # u"
      unfolding t'_def by blast
    then have st: "starts_value t'" by (simp add: starts_value_quote)
    from parse_members_more [OF key starts_value_Serialize [OF wfv'] val st rest]
    show ?thesis by (simp add: n False m QuoteJSONString_def t'_def)
  qed
qed

lemma JSON_roundtrip:
  assumes "wf_value v"
  shows "JSON_parse (JSON_stringify v) = Some v"
proof -
  let ?s = "SerializeJSONProperty v"
  from starts_value_Serialize [OF assms, of "[]"] have "skip_ws ?s = ?s"
    by (simp add: skip_ws_start)
  moreover have "parse_value (2 * length ?s + 2) (?s @ []) = Ok (v, [])"
    using assms ends_number_Nil by (rule parse_Serialize(1)) simp
  ultimately show ?thesis
    by (simp add: JSON_parse_def JSON_stringify_def skip_ws_mark)
qed

subsection \<open>Every reader consumes text\<close>

lemma cons_unit_Some:
  "cons_unit c x = Some (s, r) \<Longrightarrow> \<exists>s'. x = Some (s', r) \<and> s = c # s'"
  by (cases x) auto

lemma parse_string_body_consumes:
  "parse_string_body s = Some (t, r) \<Longrightarrow> length r < length s"
proof (induction "length s" arbitrary: s t r rule: less_induct)
  case less
  note shorter = less.hyps
  from less.prems obtain c cs where s: "s = c # cs" by (cases s) auto
  show ?case
  proof (cases "c = 0x22")
    case True
    with less.prems s show ?thesis by simp
  next
    case quote: False
    show ?thesis
    proof (cases "c = 0x5C")
      case True
      with quote less.prems s obtain e es where cs: "cs = e # es" by (cases cs) auto
      show ?thesis
      proof (cases "e = 0x75")
        case u: True
        with quote True cs s less.prems obtain h1 h2 h3 h4 r' w where
          es: "es = h1 # h2 # h3 # h4 # r'"
          and unit: "cons_unit w (parse_string_body r') = Some (t, r)"
          by (auto split: list.splits option.splits)
        from cons_unit_Some [OF unit] obtain t' where "parse_string_body r' = Some (t', r)"
          by blast
        with shorter [of r' t' r] show ?thesis
          by (simp add: s cs es)
      next
        case nu: False
        with quote True cs s less.prems obtain w where
          unit: "cons_unit w (parse_string_body es) = Some (t, r)"
          by (auto split: option.splits)
        from cons_unit_Some [OF unit] obtain t' where "parse_string_body es = Some (t', r)"
          by blast
        with shorter [of es t' r] show ?thesis
          by (simp add: s cs)
      qed
    next
      case False
      with quote s less.prems have unit: "cons_unit c (parse_string_body cs) = Some (t, r)"
        by (auto split: if_splits)
      from cons_unit_Some [OF unit] obtain t' where "parse_string_body cs = Some (t', r)"
        by blast
      with shorter [of cs t' r] show ?thesis by (simp add: s)
    qed
  qed
qed

lemma scan_lengths:
  "length (dropWhile P s) \<le> length s"
  "takeWhile P s \<noteq> [] \<Longrightarrow> length (dropWhile P s) < length s"
proof -
  have "length (takeWhile P s) + length (dropWhile P s) = length s"
    using takeWhile_dropWhile_id [of P s] by (metis length_append)
  then show "length (dropWhile P s) \<le> length s"
    and "takeWhile P s \<noteq> [] \<Longrightarrow> length (dropWhile P s) < length s"
    by (cases "takeWhile P s"; simp)+
qed

lemma parse_fraction_consumes: "parse_fraction s = Some (fp, r) \<Longrightarrow> length r \<le> length s"
  using scan_lengths(1) [of is_digit "tl s"]
  by (auto simp: parse_fraction_def split: list.splits if_splits)

lemma parse_exponent_digits_consumes:
  "parse_exponent_digits sg s = Some (x, r) \<Longrightarrow> length r \<le> length s"
  using scan_lengths(1) [of is_digit s]
  by (auto simp: parse_exponent_digits_def split: if_splits)

lemma parse_exponent_consumes: "parse_exponent s = Some (x, r) \<Longrightarrow> length r \<le> length s"
  by (auto simp: parse_exponent_def split: list.splits if_splits
      dest!: parse_exponent_digits_consumes)

lemma parse_unsigned_consumes:
  assumes "parse_unsigned neg s = Some (x, r)"
  shows "length r < length s"
proof -
  from assms obtain fp s' ex where ip: "takeWhile is_digit s \<noteq> []"
    and f: "parse_fraction (dropWhile is_digit s) = Some (fp, s')"
    and e: "parse_exponent s' = Some (ex, r)"
    by (auto simp: parse_unsigned_def Let_def split: if_splits option.splits)
  from parse_fraction_consumes [OF f] parse_exponent_consumes [OF e] scan_lengths(2) [OF ip]
  show ?thesis by linarith
qed

lemma parse_number_consumes: "parse_number s = Some (x, r) \<Longrightarrow> length r < length s"
  by (auto simp: parse_number_def split: list.splits if_splits dest!: parse_unsigned_consumes)

lemma skip_ws_length: "length (skip_ws s) \<le> length s"
  by (simp add: skip_ws_def scan_lengths(1))

lemma skip_ws_Cons_length: "skip_ws s = d # ds \<Longrightarrow> length ds < length s"
  using skip_ws_length [of s] by simp

lemma starts_with_drop:
  "starts_with p s \<Longrightarrow> p \<noteq> [] \<Longrightarrow> length (drop (length p) s) < length s"
  by (cases s) (auto simp: starts_with_def)

lemma literal_drops:
  "starts_with (js ''null'') s \<Longrightarrow> length (drop 4 s) < length s"
  "starts_with (js ''true'') s \<Longrightarrow> length (drop 4 s) < length s"
  "starts_with (js ''false'') s \<Longrightarrow> length (drop 5 s) < length s"
  using starts_with_drop [of "js ''null''" s] starts_with_drop [of "js ''true''" s]
    starts_with_drop [of "js ''false''" s]
  by (simp_all add: js_def)

lemma value_consumes_step:
  assumes E: "\<And>s vs r. parse_elements n s = Ok (vs, r) \<Longrightarrow> length r < length s"
    and M: "\<And>s ms r. parse_members n s = Ok (ms, r) \<Longrightarrow> length r < length s"
    and ok: "parse_value (Suc n) s = Ok (v, r)"
  shows "length r < length s"
proof -
  from ok obtain c cs where s: "s = c # cs"
    by (cases s) (auto simp: parse_value.simps(2))
  consider (array) "c = 0x5B" | (object) "c \<noteq> 0x5B" "c = 0x7B"
    | (string) "c \<noteq> 0x5B" "c \<noteq> 0x7B" "c = 0x22"
    | (other) "c \<noteq> 0x5B" "c \<noteq> 0x7B" "c \<noteq> 0x22"
    by blast
  then show ?thesis
  proof cases
    case array
    with ok s obtain d ds where ws: "skip_ws cs = d # ds"
      by (cases "skip_ws cs") (auto simp: parse_value.simps(2))
    note short = skip_ws_Cons_length [OF ws]
    show ?thesis
    proof (cases "d = 0x5D")
      case True
      with ok s array ws short show ?thesis by (auto simp: parse_value.simps(2))
    next
      case False
      with ok s array ws obtain vs where "parse_elements n (d # ds) = Ok (vs, r)"
        by (auto simp: parse_value.simps(2) split: result.splits)
      from E [OF this] short show ?thesis by (simp add: s)
    qed
  next
    case object
    with ok s obtain d ds where ws: "skip_ws cs = d # ds"
      by (cases "skip_ws cs") (auto simp: parse_value.simps(2))
    note short = skip_ws_Cons_length [OF ws]
    show ?thesis
    proof (cases "d = 0x7D")
      case True
      with ok s object ws short show ?thesis by (auto simp: parse_value.simps(2))
    next
      case False
      with ok s object ws obtain ms where "parse_members n (d # ds) = Ok (ms, r)"
        by (auto simp: parse_value.simps(2) split: result.splits)
      from M [OF this] short show ?thesis by (simp add: s)
    qed
  next
    case string
    with ok s obtain str where "parse_string_body cs = Some (str, r)"
      by (auto simp: parse_value.simps(2) split: option.splits)
    from parse_string_body_consumes [OF this] show ?thesis by (simp add: s)
  next
    case other
    with ok s have
      "(starts_with (js ''null'') s \<and> r = drop 4 s) \<or>
       (starts_with (js ''true'') s \<and> r = drop 4 s) \<or>
       (starts_with (js ''false'') s \<and> r = drop 5 s) \<or>
       (\<exists>x. parse_number s = Some (x, r))"
      by (auto simp: parse_value.simps(2) split: if_splits option.splits)
    then show ?thesis
      using literal_drops [of s] parse_number_consumes [of s _ r] by blast
  qed
qed

lemma elements_consumes_step:
  assumes V: "\<And>s v r. parse_value n s = Ok (v, r) \<Longrightarrow> length r < length s"
    and E: "\<And>s vs r. parse_elements n s = Ok (vs, r) \<Longrightarrow> length r < length s"
    and ok: "parse_elements (Suc n) s = Ok (vs, r)"
  shows "length r < length s"
proof -
  from ok obtain v r1 where v: "parse_value n s = Ok (v, r1)"
    by (auto simp: parse_elements.simps(2) split: result.splits)
  with ok obtain c cs where ws: "skip_ws r1 = c # cs"
    by (cases "skip_ws r1") (auto simp: parse_elements.simps(2))
  note l1 = V [OF v] and l2 = skip_ws_Cons_length [OF ws]
  show ?thesis
  proof (cases "c = 0x5D")
    case True
    with ok v ws have "r = cs" by (simp add: parse_elements.simps(2))
    with l1 l2 show ?thesis by simp
  next
    case False
    with ok v ws obtain ws' where "parse_elements n (skip_ws cs) = Ok (ws', r)"
      by (auto simp: parse_elements.simps(2) split: if_splits result.splits)
    from E [OF this] skip_ws_length [of cs] l1 l2 show ?thesis by simp
  qed
qed

lemma members_consumes_step:
  assumes V: "\<And>s v r. parse_value n s = Ok (v, r) \<Longrightarrow> length r < length s"
    and M: "\<And>s ms r. parse_members n s = Ok (ms, r) \<Longrightarrow> length r < length s"
    and ok: "parse_members (Suc n) s = Ok (ms, r)"
  shows "length r < length s"
proof -
  from ok obtain qs where s: "s = 0x22 # qs"
    by (cases s) (auto simp: parse_members.simps(2) split: if_splits)
  with ok obtain k r0 where k: "parse_string_body qs = Some (k, r0)"
    by (auto simp: parse_members.simps(2) split: option.splits)
  with ok s obtain cs where colon: "skip_ws r0 = 0x3A # cs"
    by (cases "skip_ws r0") (auto simp: parse_members.simps(2) split: if_splits)
  with ok s k obtain v r1 where v: "parse_value n (skip_ws cs) = Ok (v, r1)"
    by (auto simp: parse_members.simps(2) split: result.splits)
  with ok s k colon obtain e es where ws: "skip_ws r1 = e # es"
    by (cases "skip_ws r1") (auto simp: parse_members.simps(2))
  note l0 = parse_string_body_consumes [OF k] and l1 = skip_ws_Cons_length [OF colon]
    and l2 = V [OF v] and l3 = skip_ws_length [of cs] and l4 = skip_ws_Cons_length [OF ws]
  show ?thesis
  proof (cases "e = 0x7D")
    case True
    with ok s k colon v ws have "r = es" by (simp add: parse_members.simps(2))
    with l0 l1 l2 l3 l4 show ?thesis by (simp add: s)
  next
    case False
    with ok s k colon v ws obtain ms' where "parse_members n (skip_ws es) = Ok (ms', r)"
      by (auto simp: parse_members.simps(2) split: if_splits result.splits)
    from M [OF this] skip_ws_length [of es] l0 l1 l2 l3 l4 show ?thesis by (simp add: s)
  qed
qed

lemma parser_consumes:
  "(\<forall>s v r. parse_value n s = Ok (v, r) \<longrightarrow> length r < length s) \<and>
   (\<forall>s vs r. parse_elements n s = Ok (vs, r) \<longrightarrow> length r < length s) \<and>
   (\<forall>s ms r. parse_members n s = Ok (ms, r) \<longrightarrow> length r < length s)"
proof (induction n)
  case 0
  show ?case by simp
next
  case (Suc n)
  then have V: "\<And>s v r. parse_value n s = Ok (v, r) \<Longrightarrow> length r < length s"
    and E: "\<And>s vs r. parse_elements n s = Ok (vs, r) \<Longrightarrow> length r < length s"
    and M: "\<And>s ms r. parse_members n s = Ok (ms, r) \<Longrightarrow> length r < length s"
    by blast+
  show ?case
  proof (intro conjI allI impI)
    fix s v r
    assume ok: "parse_value (Suc n) s = Ok (v, r)"
    show "length r < length s"
      by (rule value_consumes_step [OF _ _ ok]) (rule E, assumption, rule M, assumption)
  next
    fix s vs r
    assume ok: "parse_elements (Suc n) s = Ok (vs, r)"
    show "length r < length s"
      by (rule elements_consumes_step [OF _ _ ok]) (rule V, assumption, rule E, assumption)
  next
    fix s ms r
    assume ok: "parse_members (Suc n) s = Ok (ms, r)"
    show "length r < length s"
      by (rule members_consumes_step [OF _ _ ok]) (rule V, assumption, rule M, assumption)
  qed
qed

lemma parse_value_consumes: "parse_value n s = Ok (v, r) \<Longrightarrow> length r < length s"
  using parser_consumes [of n] by blast

subsection \<open>The fuel of \<open>JSON_parse\<close> suffices\<close>

lemma value_fuel_step:
  assumes E: "\<And>s. 2 * length s + 1 < n \<Longrightarrow> parse_elements n s \<noteq> OutOfFuel"
    and M: "\<And>s. 2 * length s + 1 < n \<Longrightarrow> parse_members n s \<noteq> OutOfFuel"
    and fuel: "2 * length s < Suc n"
  shows "parse_value (Suc n) s \<noteq> OutOfFuel"
proof
  assume bad: "parse_value (Suc n) s = OutOfFuel"
  then obtain c cs where s: "s = c # cs"
    by (cases s) (auto simp: parse_value.simps(2))
  from bad s obtain d ds where ws: "skip_ws cs = d # ds"
    and sub: "parse_elements n (d # ds) = OutOfFuel \<or> parse_members n (d # ds) = OutOfFuel"
    by (auto simp: parse_value.simps(2) split: if_splits list.splits result.splits option.splits)
  from skip_ws_Cons_length [OF ws] fuel s have "2 * length (d # ds) + 1 < n" by simp
  with E [of "d # ds"] M [of "d # ds"] sub show False by blast
qed

lemma elements_fuel_step:
  assumes V: "\<And>s. 2 * length s < n \<Longrightarrow> parse_value n s \<noteq> OutOfFuel"
    and E: "\<And>s. 2 * length s + 1 < n \<Longrightarrow> parse_elements n s \<noteq> OutOfFuel"
    and fuel: "2 * length s + 1 < Suc n"
  shows "parse_elements (Suc n) s \<noteq> OutOfFuel"
proof
  assume bad: "parse_elements (Suc n) s = OutOfFuel"
  from fuel have "parse_value n s \<noteq> OutOfFuel" by (intro V) simp
  with bad obtain v r1 c cs where v: "parse_value n s = Ok (v, r1)"
    and ws: "skip_ws r1 = c # cs"
    and sub: "parse_elements n (skip_ws cs) = OutOfFuel"
    by (auto simp: parse_elements.simps(2) split: if_splits list.splits result.splits)
  from parse_value_consumes [OF v] skip_ws_Cons_length [OF ws] skip_ws_length [of cs] fuel
  have "2 * length (skip_ws cs) + 1 < n" by simp
  with E sub show False by blast
qed

lemma members_fuel_step:
  assumes V: "\<And>s. 2 * length s < n \<Longrightarrow> parse_value n s \<noteq> OutOfFuel"
    and M: "\<And>s. 2 * length s + 1 < n \<Longrightarrow> parse_members n s \<noteq> OutOfFuel"
    and fuel: "2 * length s + 1 < Suc n"
  shows "parse_members (Suc n) s \<noteq> OutOfFuel"
proof
  assume bad: "parse_members (Suc n) s = OutOfFuel"
  then obtain q qs k r0 c cs where s: "s = q # qs"
    and k: "parse_string_body qs = Some (k, r0)"
    and colon: "skip_ws r0 = c # cs"
    and sub: "parse_value n (skip_ws cs) = OutOfFuel \<or>
      (\<exists>v r1 e es. parse_value n (skip_ws cs) = Ok (v, r1) \<and> skip_ws r1 = e # es \<and>
         parse_members n (skip_ws es) = OutOfFuel)"
    by (auto simp: parse_members.simps(2)
        split: if_splits list.splits result.splits option.splits)
  note l0 = parse_string_body_consumes [OF k] and l1 = skip_ws_Cons_length [OF colon]
    and l2 = skip_ws_length [of cs]
  from l0 l1 l2 fuel s have "2 * length (skip_ws cs) < n" by simp
  then have "parse_value n (skip_ws cs) \<noteq> OutOfFuel" by (rule V)
  with sub obtain v r1 e es where v: "parse_value n (skip_ws cs) = Ok (v, r1)"
    and ws: "skip_ws r1 = e # es" and m: "parse_members n (skip_ws es) = OutOfFuel"
    by blast
  from parse_value_consumes [OF v] skip_ws_Cons_length [OF ws] skip_ws_length [of es]
    l0 l1 l2 fuel s
  have "2 * length (skip_ws es) + 1 < n" by simp
  with M m show False by blast
qed

lemma parser_fuel:
  "(\<forall>s. 2 * length s < n \<longrightarrow> parse_value n s \<noteq> OutOfFuel) \<and>
   (\<forall>s. 2 * length s + 1 < n \<longrightarrow> parse_elements n s \<noteq> OutOfFuel) \<and>
   (\<forall>s. 2 * length s + 1 < n \<longrightarrow> parse_members n s \<noteq> OutOfFuel)"
proof (induction n)
  case 0
  show ?case by simp
next
  case (Suc n)
  then have V: "\<And>s. 2 * length s < n \<Longrightarrow> parse_value n s \<noteq> OutOfFuel"
    and E: "\<And>s. 2 * length s + 1 < n \<Longrightarrow> parse_elements n s \<noteq> OutOfFuel"
    and M: "\<And>s. 2 * length s + 1 < n \<Longrightarrow> parse_members n s \<noteq> OutOfFuel"
    by blast+
  show ?case
  proof (intro conjI allI impI)
    fix s :: jsstring
    assume fuel: "2 * length s < Suc n"
    show "parse_value (Suc n) s \<noteq> OutOfFuel"
      by (rule value_fuel_step [OF _ _ fuel]) (rule E, assumption, rule M, assumption)
  next
    fix s :: jsstring
    assume fuel: "2 * length s + 1 < Suc n"
    show "parse_elements (Suc n) s \<noteq> OutOfFuel"
      by (rule elements_fuel_step [OF _ _ fuel]) (rule V, assumption, rule E, assumption)
    show "parse_members (Suc n) s \<noteq> OutOfFuel"
      by (rule members_fuel_step [OF _ _ fuel]) (rule V, assumption, rule M, assumption)
  qed
qed

lemma JSON_parse_fuel: "parse_value (2 * length s + 2) (skip_ws s) \<noteq> OutOfFuel"
proof -
  have "2 * length (skip_ws s) < 2 * length s + 2"
    using skip_ws_length [of s] by simp
  with parser_fuel [of "2 * length s + 2"] show ?thesis by blast
qed

lemma wf_Pin_value: "valid_Pin p \<Longrightarrow> wf_value (Pin_value p)"
  by (simp add: valid_Pin_def Pin_value_def js_def)

lemma wf_Pin_values: "list_all valid_Pin ps \<Longrightarrow> wf_values (map Pin_value ps)"
  by (induction ps) (simp_all add: wf_Pin_value)

lemma Pin_value_inj: "Pin_value p = Pin_value q \<Longrightarrow> p = q"
  by (cases p, cases q) (simp add: Pin_value_def)

lemma Pin_values_inj: "map Pin_value qs = map Pin_value ps \<Longrightarrow> qs = ps"
proof (induction qs arbitrary: ps)
  case Nil
  then show ?case by simp
next
  case (Cons q qs)
  then obtain p ps' where "ps = p # ps'" by (cases ps) auto
  with Cons show ?case by (auto dest: Pin_value_inj)
qed

lemma JSON_stringify_array_nonempty: "JSON_stringify (JArray vs) \<noteq> []"
  by (simp add: JSON_stringify_def)

subsection \<open>Saving and loading\<close>

text \<open>
  Claim C1 (persistence round-trip). For every list of valid pins, saving the list
  (the whole list is written under the one key) and then loading yields the same list:
  the load effect hands to \<open>setPins\<close> the array of the same pin objects in the same
  order, and no other list of pins has that array, so every field of every pin is
  preserved.
\<close>

theorem save_then_load:
  assumes "list_all valid_Pin ps"
  shows "load_effect (save_effect ps st) = SetPins (JArray (map Pin_value ps)) \<and>
         pins_after_load (save_effect ps st) = JArray (map Pin_value ps) \<and>
         (\<forall>qs. JArray (map Pin_value qs) = pins_after_load (save_effect ps st) \<longrightarrow> qs = ps)"
proof -
  from assms have "wf_value (JArray (map Pin_value ps))"
    by (simp add: wf_Pin_values)
  then have "JSON_parse (JSON_stringify (JArray (map Pin_value ps))) = Some (JArray (map Pin_value ps))"
    by (rule JSON_roundtrip)
  then have l: "load_effect (save_effect ps st) = SetPins (JArray (map Pin_value ps))"
    by (simp add: load_effect_def save_effect_def JSON_stringify_array_nonempty)
  then have p: "pins_after_load (save_effect ps st) = JArray (map Pin_value ps)"
    by (simp add: pins_after_load_def)
  from l p show ?thesis by (auto dest: Pin_values_inj)
qed

theorem save_then_load_witness:
  "list_all valid_Pin [stored_pin, stored_pin\<lparr>pin_id := js ''1730000000001'', lat := Num 1 21,
       lng := Num (- 12) (- 8), title := js ''Library''\<rparr>] \<and>
   pins_after_load (save_effect [stored_pin, stored_pin\<lparr>pin_id := js ''1730000000001'',
       lat := Num 1 21, lng := Num (- 12) (- 8), title := js ''Library''\<rparr>] no_storage) =
     JArray [Pin_value stored_pin, Pin_value (stored_pin\<lparr>pin_id := js ''1730000000001'',
       lat := Num 1 21, lng := Num (- 12) (- 8), title := js ''Library''\<rparr>)]"
proof -
  let ?ps = "[stored_pin, stored_pin\<lparr>pin_id := js ''1730000000001'', lat := Num 1 21,
       lng := Num (- 12) (- 8), title := js ''Library''\<rparr>]"
  have v: "list_all valid_Pin ?ps"
    by (simp add: valid_Pin_def stored_pin_def)
  from save_then_load [OF v, of no_storage] v show ?thesis by simp
qed

lemma stored_text_example:
  \<open>save_effect [stored_pin] no_storage storage_key =
     Some (js ''[{"id":"1730000000000","lat":51.5,"lng":-0.09,"title":"Cafe","description":"","timestamp":1730000000000}]'')\<close>
  by (simp add: save_effect_def JSON_stringify_def Pin_value_def stored_pin_def
      QuoteJSONString_def quote_unit_def is_leading_surrogate_def is_trailing_surrogate_def
      toString_eval)

subsection \<open>Loading text that was not saved by the screen\<close>

lemma JSON_parse_examples:
  "JSON_parse (js ''not json'') = None"
  "JSON_parse (js ''42'') = Some (JNumber (Num 42 0))"
  "JSON_parse (js ''[7]'') = Some (JArray [JNumber (Num 7 0)])"
  by code_simp+

text \<open>
  Claim C3 says that a stored value that is JSON but not a list of pin records yields
  an empty pin list. It fails on the code: with \<open>42\<close> in the slot the cell \<open>pins\<close> becomes
  the number 42, and with \<open>[7]\<close> it becomes a list holding the number 7.
\<close>

theorem load_counterexample:
  "pins_after_load (no_storage(storage_key \<mapsto> js ''42'')) = JNumber (Num 42 0) \<and>
   JNumber (Num 42 0) \<noteq> JArray [] \<and>
   pins_after_load (no_storage(storage_key \<mapsto> js ''[7]'')) = JArray [JNumber (Num 7 0)] \<and>
   JArray [JNumber (Num 7 0)] \<noteq> JArray []"
proof -
  have "js ''42'' \<noteq> []" and "js ''[7]'' \<noteq> []"
    by (simp_all add: js_def)
  then show ?thesis
    by (simp add: pins_after_load_def load_effect_def JSON_parse_examples)
qed

text \<open>
  Claim C3 as amended. Loading from a slot that is absent or holds the empty string
  leaves the pin list empty; loading from a slot whose text is not JSON leaves the pin
  list empty as well, the error being caught; in no case is an error thrown, and the
  reader never runs out of fuel. A text that is JSON is put into the pin list as it was
  parsed, without any check of its structure.
\<close>

theorem load_recovers_from_bad_text:
  "(st storage_key = None \<or> st storage_key = Some [] \<longrightarrow>
      load_effect st = Unchanged \<and> pins_after_load st = JArray []) \<and>
   (st storage_key = Some saved \<and> saved \<noteq> [] \<and> JSON_parse saved = None \<longrightarrow>
      load_effect st = Caught \<and> pins_after_load st = JArray []) \<and>
   (st storage_key = Some saved \<and> saved \<noteq> [] \<and> JSON_parse saved = Some v \<longrightarrow>
      load_effect st = SetPins v \<and> pins_after_load st = v) \<and>
   parse_value (2 * length saved + 2) (skip_ws saved) \<noteq> OutOfFuel"
  using JSON_parse_fuel [of saved] by (auto simp: load_effect_def pins_after_load_def)

theorem load_recovers_from_bad_text_witness:
  "(no_storage(storage_key \<mapsto> js ''not json'')) storage_key = Some (js ''not json'') \<and>
   js ''not json'' \<noteq> [] \<and> JSON_parse (js ''not json'') = None \<and>
   load_effect (no_storage(storage_key \<mapsto> js ''not json'')) = Caught \<and>
   pins_after_load (no_storage(storage_key \<mapsto> js ''not json'')) = JArray [] \<and>
   no_storage storage_key = None \<and> pins_after_load no_storage = JArray []"
proof -
  have h: "(no_storage(storage_key \<mapsto> js ''not json'')) storage_key = Some (js ''not json'')"
    "js ''not json'' \<noteq> []" "JSON_parse (js ''not json'') = None"
    by (simp_all add: JSON_parse_examples, simp add: js_def)
  have e: "no_storage storage_key = None" by (simp add: no_storage_def)
  from load_recovers_from_bad_text [of "no_storage(storage_key \<mapsto> js ''not json'')" "js ''not json''"]
    h
  have "load_effect (no_storage(storage_key \<mapsto> js ''not json'')) = Caught"
    and "pins_after_load (no_storage(storage_key \<mapsto> js ''not json'')) = JArray []"
    by blast+
  moreover from load_recovers_from_bad_text [of no_storage] e
  have "pins_after_load no_storage = JArray []" by blast
  ultimately show ?thesis using h e by simp
qed

subsection \<open>Cancel on the other screens\<close>

lemma cancel_Soft_stays_armed:
  "isAddingPin s \<Longrightarrow> \<exists>s'. cancel Soft s = Some s' \<and> controller_of s' = AddModeArmed"
  by (simp add: controller_of_def)

lemma cancel_Cyber_absent: "cancel Cyber s = None"
  by simp


subsection \<open>Ids under distinct clock readings\<close>

lemma fresh_stamps_if_distinct:
  "list_all wf_number (stamps es) \<Longrightarrow> distinct (stamps es) \<Longrightarrow>
   Number_toString ` set (stamps es) \<inter> set seen = {} \<Longrightarrow> fresh_stamps seen es"
proof (induction seen es rule: fresh_stamps.induct)
  case (2 seen now_id now_ts es)
  from "2.prems" have wf: "wf_number now_id" "list_all wf_number (stamps es)"
    and d: "now_id \<notin> set (stamps es)" "distinct (stamps es)"
    and new: "Number_toString now_id \<notin> set seen"
    and old: "Number_toString ` set (stamps es) \<inter> set seen = {}"
    by auto
  have "Number_toString now_id \<notin> Number_toString ` set (stamps es)"
  proof
    assume "Number_toString now_id \<in> Number_toString ` set (stamps es)"
    then obtain x where x: "x \<in> set (stamps es)" "Number_toString now_id = Number_toString x"
      by blast
    from wf(2) x(1) have "wf_number x" by (simp add: list_all_iff)
    from Number_toString_inj [OF wf(1) this x(2)] x(1) d(1) show False by simp
  qed
  with old have "Number_toString ` set (stamps es) \<inter> set (Number_toString now_id # seen) = {}"
    by auto
  from "2.IH" [OF wf(2) d(2) this] new show ?case by simp
qed simp_all

text \<open>
  Claim C4 as amended. Take any sequence of events on any of the three screens (in
  particular N sequential adds), from a state whose pin list has no duplicate id. If the
  \<^verbatim>\<open>Date.now()\<close> readings that the saves turn into ids are pairwise distinct and none of
  them prints to an id of the starting list, then the pin list has no duplicate id at
  the end.
\<close>

theorem ids_distinct_if_readings_distinct:
  assumes "run v es s = Some s'" and "distinct (ids_of s)"
    and "list_all wf_number (stamps es)" and "distinct (stamps es)"
    and "Number_toString ` set (stamps es) \<inter> set (ids_of s) = {}"
  shows "distinct (ids_of s')"
  using run_ids [OF assms(1,2) _ fresh_stamps_if_distinct [OF assms(3,4,5)]] by simp

theorem ids_distinct_if_readings_distinct_witness:
  "\<exists>s'. run Minimal ticking_clock_adds initial = Some s' \<and>
        distinct (ids_of initial) \<and>
        list_all wf_number (stamps ticking_clock_adds) \<and>
        distinct (stamps ticking_clock_adds) \<and>
        Number_toString ` set (stamps ticking_clock_adds) \<inter> set (ids_of initial) = {} \<and>
        ids_of s' = [js ''1730000000000'', js ''1730000000001''] \<and> distinct (ids_of s')"
proof -
  have stamp: "Number_toString (Num 1730000000001 0) = js ''1730000000001''"
    by (simp add: toString_eval)
  have r: "run Minimal ticking_clock_adds initial =
      Some (initial\<lparr>pins := [newPin (Num 173 10) (Num 173 10) cafe_coordinate
                                (initial\<lparr>pinTitle := js ''Cafe''\<rparr>),
                              newPin (Num 1730000000001 0) (Num 1730000000001 0) cafe_coordinate
                                (initial\<lparr>pinTitle := js ''Library''\<rparr>)],
                     isSidebarOpen := True,
                     toasts := [add_mode_hint Minimal, pin_saved Minimal,
                                add_mode_hint Minimal, pin_saved Minimal]\<rparr>)"
    by (simp add: ticking_clock_adds_def initial_def toggleAddMode_def handleMapClick_def
        savePin_def raise_toast_def trim_Cafe trim_Library newPin_def)
  have d: "distinct (ids_of initial)"
    by (simp add: ids_of_def initial_def)
  have w: "list_all wf_number (stamps ticking_clock_adds)"
    and u: "distinct (stamps ticking_clock_adds)"
    by (simp_all add: ticking_clock_adds_def)
  have f: "Number_toString ` set (stamps ticking_clock_adds) \<inter> set (ids_of initial) = {}"
    by (simp add: ids_of_def initial_def)
  from ids_distinct_if_readings_distinct [OF r d w u f] r d w u f show ?thesis
    by (simp add: ids_of_def newPin_def stamp stamp_173)
qed

end
